theory Spec2Isabelle
  imports Complex_Main
begin

section \<open>Data model of \<open>src/bot.js\<close>\<close>

text \<open>
  The bot is a set of command handlers over objects supplied by the messaging client
  library. The objects are modelled as records holding the fields the handlers read.
  A JavaScript string is a \<^typ>\<open>string\<close>; a character stands for the code unit of the
  same number (U+0000 to U+00FF).
\<close>

text \<open>\<open>participant.id\<close>: the fields \<open>_serialized\<close> and \<open>user\<close>.\<close>

record wid =
  serialized :: string
  user :: string

text \<open>An entry of \<open>chat.participants\<close>.\<close>

record participant =
  id' :: wid
  isAdmin :: bool

record contact =
  pushname :: string
  number :: string

text \<open>
  A chat. \<open>participants\<close> is read only after \<open>isGroup\<close> has been tested, so a private
  chat carries an unused list. The client keeps the participants of a group by their
  identifier, one entry for each.
\<close>

record chat =
  name :: string
  isGroup :: bool
  participants :: "participant list"

text \<open>
  An incoming message. \<open>author\<close> is \<open>undefined\<close> outside group chats, which is \<open>None\<close>.
\<close>

record message =
  body :: string
  author :: "string option"
  from' :: string

subsection \<open>Configuration\<close>

definition SUPER_ADMINS :: "string list" where
  "SUPER_ADMINS = [''916239232874@c.us'']"

definition TAG_BATCH_SIZE :: nat where
  "TAG_BATCH_SIZE = 50"

definition TAG_DELAY_MS :: nat where
  "TAG_DELAY_MS = 1000"

section \<open>Authorization check\<close>

text \<open>
  \<open>message.author || message.from\<close>: the author unless it is \<open>undefined\<close> or the empty
  string, the two falsy values a string field can take.
\<close>

definition senderId :: "message \<Rightarrow> string" where
  "senderId m = (case author m of
                   None \<Rightarrow> from' m
                 | Some a \<Rightarrow> if a = [] then from' m else a)"

text \<open>
  \<open>isUserAuthorized\<close>. \<open>Array.prototype.find\<close> returns the first element that satisfies
  the predicate, or \<open>undefined\<close>; that is \<^const>\<open>List.find\<close>.
\<close>

definition isUserAuthorized :: "message \<Rightarrow> chat \<Rightarrow> bool" where
  "isUserAuthorized m c =
     (if List.member SUPER_ADMINS (senderId m) then True
      else if isGroup c then
        (case List.find (\<lambda>p. serialized (id' p) = senderId m) (participants c) of
           Some senderParticipant \<Rightarrow> isAdmin senderParticipant
         | None \<Rightarrow> False)
      else False)"

section \<open>Strings\<close>

text \<open>
  White space as \<open>String.prototype.trim\<close> and the pattern class \<open>\s\<close> see it, among the
  code units below 256: tab, line feed, vertical tab, form feed, carriage return, space
  and no-break space.
\<close>

definition isWhiteSpace :: "char \<Rightarrow> bool" where
  "isWhiteSpace c \<longleftrightarrow>
     c = CHR 0x09 \<or> c = CHR 0x0A \<or> c = CHR 0x0B \<or> c = CHR 0x0C \<or> c = CHR 0x0D \<or>
     c = CHR '' '' \<or> c = CHR 0xA0"

definition trimStart :: "string \<Rightarrow> string" where
  "trimStart s = dropWhile isWhiteSpace s"

definition trimEnd :: "string \<Rightarrow> string" where
  "trimEnd s = rev (dropWhile isWhiteSpace (rev s))"

definition trim :: "string \<Rightarrow> string" where
  "trim s = trimEnd (trimStart s)"

text \<open>The pattern class \<open>\d\<close>: the ten ASCII digits.\<close>

definition isDigit :: "char \<Rightarrow> bool" where
  "isDigit c \<longleftrightarrow> List.member ''0123456789'' c"

text \<open>
  \<open>String.prototype.toLowerCase\<close> on code units below 256: the letters A to Z and the
  capital letters of U+00C0 to U+00DE (U+00D7 is the multiplication sign) move up by 32.
\<close>

definition toLowerCase_char :: "char \<Rightarrow> char" where
  "toLowerCase_char c =
     (let n = (of_char c :: nat)
      in if (65 \<le> n \<and> n \<le> 90) \<or> (192 \<le> n \<and> n \<le> 222 \<and> n \<noteq> 215)
         then char_of (n + 32) else c)"

definition toLowerCase :: "string \<Rightarrow> string" where
  "toLowerCase s = map toLowerCase_char s"

definition startsWith :: "string \<Rightarrow> string \<Rightarrow> bool" where
  "startsWith s p \<longleftrightarrow> take (length p) s = p"

text \<open>
  \<open>s.split(c)\<close> for a one-character separator: the pieces between the separators, so
  the empty string gives one empty piece and a trailing separator a last empty piece.
\<close>

fun split :: "char \<Rightarrow> string \<Rightarrow> string list" where
  "split c [] = [[]]"
| "split c (x # xs) =
     (if x = c then [] # split c xs
      else (case split c xs of
              [] \<Rightarrow> [[x]]
            | l # ls \<Rightarrow> (x # l) # ls))"

text \<open>\<open>xs.slice(a, b)\<close> for indices \<open>0 \<le> a \<le> b\<close>; both ends are clamped to the length.\<close>

definition slice :: "'a list \<Rightarrow> nat \<Rightarrow> nat \<Rightarrow> 'a list" where
  "slice xs a b = take (b - a) (drop a xs)"

section \<open>Numbers\<close>

text \<open>
  A JavaScript number is a double. The numbers of \<open>handleRemind\<close> come from \<open>parseInt\<close>,
  from integer constants, and from products and sums of these: they are \<open>NaN\<close>, an
  infinity, or a finite double whose value is an integer (a double of \<open>2 ^ 53\<close> or more is
  an integer, and below that every integer is a double). A finite number is written
  \<open>Fin i\<close> for its value \<open>i\<close>. The two zeros are one \<open>Fin 0\<close>: they compare and print
  alike and the handlers do not divide.
\<close>

datatype number = NaN | Fin int | PInf | NInf

function bit_length :: "int \<Rightarrow> nat" where
  "bit_length n = (if n \<le> 0 then 0 else Suc (bit_length (n div 2)))"
  by pat_completeness auto
termination
  by (relation "measure nat") auto

declare bit_length.simps [simp del]

text \<open>
  The value of the double nearest to an integer that is not negative, ties going to
  the even significand of 53 bits; the exponent is not bounded here, so that a result
  of \<open>2 ^ 1024\<close> or more stands for an overflow.
\<close>

definition round_double :: "int \<Rightarrow> int" where
  "round_double n =
     (if n < 2 ^ 53 then n
      else (let e = bit_length n - 53;
                q = n div 2 ^ e;
                r = n mod 2 ^ e;
                half = 2 ^ (e - 1)
            in (if half < r \<or> (r = half \<and> odd q) then q + 1 else q) * 2 ^ e))"

text \<open>The number for an integer: the nearest double, or an infinity on overflow.\<close>

definition to_double :: "int \<Rightarrow> number" where
  "to_double i =
     (let v = round_double \<bar>i\<bar>
      in if 2 ^ 1024 \<le> v then (if i < 0 then NInf else PInf)
         else Fin (if i < 0 then - v else v))"

definition digit_value :: "char \<Rightarrow> int" where
  "digit_value c = int (of_char c) - 48"

definition decimal :: "string \<Rightarrow> int" where
  "decimal ds = foldl (\<lambda>n c. 10 * n + digit_value c) 0 ds"

text \<open>
  \<open>parseInt(x, 10)\<close>: \<open>undefined\<close> becomes the string \<open>"undefined"\<close> and gives \<open>NaN\<close>;
  a string is read after its leading white space as an optional sign and the longest
  run of digits; it gives \<open>NaN\<close> when that run is empty and else the number for the
  integer the digits write. (The language lets an implementation read the digits after
  the twentieth as zeros; this is the reading that keeps them, which V8 has.)
\<close>

definition parseInt10 :: "string option \<Rightarrow> number" where
  "parseInt10 x =
     (case x of
        None \<Rightarrow> NaN
      | Some s \<Rightarrow>
          (let t = trimStart s;
               sgn = (case t of c # _ \<Rightarrow> if c = CHR ''-'' then - 1 else (1::int) | [] \<Rightarrow> 1);
               u = (case t of c # r \<Rightarrow> if c = CHR ''-'' \<or> c = CHR ''+'' then r else t | [] \<Rightarrow> t);
               ds = takeWhile isDigit u
           in if ds = [] then NaN else to_double (sgn * decimal ds)))"

text \<open>
  The sum and the product of two numbers: the exact result rounded to the nearest
  double, with the infinities and \<open>NaN\<close> of the arithmetic of doubles.
\<close>

fun num_add :: "number \<Rightarrow> number \<Rightarrow> number" where
  "num_add (Fin x) (Fin y) = to_double (x + y)"
| "num_add NaN b = NaN"
| "num_add a NaN = NaN"
| "num_add PInf NInf = NaN"
| "num_add NInf PInf = NaN"
| "num_add PInf b = PInf"
| "num_add NInf b = NInf"
| "num_add a PInf = PInf"
| "num_add a NInf = NInf"

definition num_sign :: "number \<Rightarrow> int" where
  "num_sign a = (case a of NaN \<Rightarrow> 0 | Fin x \<Rightarrow> sgn x | PInf \<Rightarrow> 1 | NInf \<Rightarrow> - 1)"

fun num_mul :: "number \<Rightarrow> number \<Rightarrow> number" where
  "num_mul (Fin x) (Fin y) = to_double (x * y)"
| "num_mul NaN b = NaN"
| "num_mul a NaN = NaN"
| "num_mul a b =
     (if num_sign a * num_sign b = 0 then NaN
      else if 0 < num_sign a * num_sign b then PInf else NInf)"

text \<open>Comparisons; those with \<open>NaN\<close> are false.\<close>

fun num_le :: "number \<Rightarrow> number \<Rightarrow> bool" where
  "num_le NaN b = False"
| "num_le a NaN = False"
| "num_le (Fin x) (Fin y) = (x \<le> y)"
| "num_le NInf b = True"
| "num_le a PInf = True"
| "num_le a b = False"

definition num_gt :: "number \<Rightarrow> number \<Rightarrow> bool" where
  "num_gt a b = (a \<noteq> b \<and> num_le b a)"

text \<open>The decimal digits of a natural number, and of an integer that is not negative.\<close>

fun show_nat :: "nat \<Rightarrow> string" where
  "show_nat n = (if n < 10 then [char_of (48 + n)]
                 else show_nat (n div 10) @ [char_of (48 + n mod 10)])"

function show_int :: "int \<Rightarrow> string" where
  "show_int n = (if n < 10 then [char_of (48 + nat n)]
                 else show_int (n div 10) @ [char_of (48 + nat (n mod 10))])"
  by pat_completeness auto
termination
  by (relation "measure nat") auto

declare show_int.simps [simp del]

text \<open>
  How a template literal prints a number (\<open>Number::toString\<close>). For a positive double
  \<open>x\<close> the language takes the integers \<open>n\<close>, \<open>k\<close> and \<open>s\<close> with \<open>s\<close> of \<open>k\<close> digits such that
  \<open>s * 10 ^ (n - k)\<close> rounds to \<open>x\<close>, with \<open>k\<close> as small as can be, then \<open>s\<close> as close to \<open>x\<close>
  as can be, then \<open>s\<close> even. \<open>shortest_digits x\<close> is \<open>(s, n)\<close>. With \<open>n0\<close> the number of
  digits of \<open>x\<close>, either \<open>10 ^ n0\<close> rounds to \<open>x\<close>, which is \<open>s = 1\<close> and \<open>n = n0 + 1\<close>, or
  \<open>n = n0\<close> and \<open>s\<close> is one of the two integers around \<open>x / 10 ^ (n0 - k)\<close>.
\<close>

definition shortest_digits :: "int \<Rightarrow> int \<times> nat" where
  "shortest_digits x =
     (let n0 = length (show_int x)
      in if round_double (10 ^ n0) = x then (1, n0 + 1)
         else
           (let lo = (\<lambda>k. x div 10 ^ (n0 - k));
                lo_ok = (\<lambda>k. round_double (lo k * 10 ^ (n0 - k)) = x);
                hi_ok = (\<lambda>k. lo k + 1 < 10 ^ k \<and> round_double ((lo k + 1) * 10 ^ (n0 - k)) = x)
            in case List.find (\<lambda>k. lo_ok k \<or> hi_ok k) [1..<Suc n0] of
                 None \<Rightarrow> (x, n0)
               | Some k \<Rightarrow>
                   (let below = x - lo k * 10 ^ (n0 - k);
                        above = (lo k + 1) * 10 ^ (n0 - k) - x
                    in (if lo_ok k \<and> hi_ok k then
                          (if below < above then lo k
                           else if above < below then lo k + 1
                           else if even (lo k) then lo k else lo k + 1)
                        else if lo_ok k then lo k else lo k + 1,
                        n0))))"

text \<open>
  Up to 21 digits before the point the digits of \<open>s\<close> are followed by zeros; beyond,
  the number is printed with an exponent.
\<close>

definition show_double :: "int \<Rightarrow> string" where
  "show_double x =
     (if x = 0 then ''0''
      else (let sn = shortest_digits x;
                ds = show_int (fst sn);
                n = snd sn
            in if n \<le> 21 then ds @ replicate (n - length ds) CHR ''0''
               else (case ds of
                       [] \<Rightarrow> []
                     | [d] \<Rightarrow> [d]
                     | d # ds' \<Rightarrow> d # CHR ''.'' # ds') @ ''e+'' @ show_nat (n - 1)))"

definition show_number :: "number \<Rightarrow> string" where
  "show_number x =
     (case x of
        NaN \<Rightarrow> ''NaN''
      | PInf \<Rightarrow> ''Infinity''
      | NInf \<Rightarrow> ''-Infinity''
      | Fin i \<Rightarrow> if i < 0 then CHR ''-'' # show_double (- i) else show_double i)"

section \<open>Regular expressions\<close>

text \<open>
  The patterns of \<open>handleRemind\<close> use digits, white space, literal characters,
  concatenation, the greedy quantifiers \<open>*\<close>, \<open>+\<close> and \<open>?\<close>, and capture groups.
\<close>

datatype regex =
    Eps
  | Digit
  | Space
  | Lit char
  | Cat regex regex
  | Star regex
  | Opt regex
  | Group nat regex

abbreviation Plus :: "regex \<Rightarrow> regex" where
  "Plus r \<equiv> Cat r (Star r)"

type_synonym captures = "nat \<Rightarrow> string option"

text \<open>
  A backtracking matcher: \<open>run r (s, g)\<close> lists, in the order the engine tries them, the
  ways \<open>r\<close> can match a prefix of \<open>s\<close>, each as the rest of the input with the captures
  after the match. A greedy quantifier tries one more iteration before it tries to stop,
  and an iteration that consumes nothing is abandoned.
\<close>

function run :: "regex \<Rightarrow> string \<times> captures \<Rightarrow> (string \<times> captures) list" where
  "run Eps st = [st]"
| "run Digit (s, g) = (case s of [] \<Rightarrow> [] | c # cs \<Rightarrow> if isDigit c then [(cs, g)] else [])"
| "run Space (s, g) = (case s of [] \<Rightarrow> [] | c # cs \<Rightarrow> if isWhiteSpace c then [(cs, g)] else [])"
| "run (Lit a) (s, g) = (case s of [] \<Rightarrow> [] | c # cs \<Rightarrow> if c = a then [(cs, g)] else [])"
| "run (Cat r1 r2) st = concat (map (run r2) (run r1 st))"
| "run (Star r) st =
     concat (map (\<lambda>st'. if length (fst st') < length (fst st) then run (Star r) st' else [])
                 (run r st)) @ [st]"
| "run (Opt r) st = run r st @ [st]"
| "run (Group k r) (s, g) =
     map (\<lambda>(s', g'). (s', g'(k := Some (take (length s - length s') s)))) (run r (s, g))"
  by pat_completeness auto
termination
  by (relation "measures [\<lambda>(r, st). size r, \<lambda>(r, st). length (fst st)]") auto

declare run.simps [simp del]

text \<open>
  \<open>s.match(r)\<close> for a pattern without the \<open>g\<close> flag: the first match found when trying
  the start positions from left to right, as its captures; \<open>None\<close> is \<open>null\<close>.
\<close>

fun re_match :: "regex \<Rightarrow> string \<Rightarrow> captures option" where
  "re_match r [] = (case run r ([], \<lambda>_. None) of [] \<Rightarrow> None | m # _ \<Rightarrow> Some (snd m))"
| "re_match r (c # cs) =
     (case run r (c # cs, \<lambda>_. None) of [] \<Rightarrow> re_match r cs | m # _ \<Rightarrow> Some (snd m))"

text \<open>\<open>/(\d+)\s*h(our)?s?/\<close>\<close>

definition hours_re :: regex where
  "hours_re =
     Cat (Group 1 (Plus Digit)) (Cat (Star Space) (Cat (Lit CHR ''h'')
       (Cat (Opt (Group 2 (Cat (Lit CHR ''o'') (Cat (Lit CHR ''u'') (Lit CHR ''r'')))))
            (Opt (Lit CHR ''s'')))))"

text \<open>\<open>/(\d+)\s*m(inute)?s?/\<close>\<close>

definition minutes_re :: regex where
  "minutes_re =
     Cat (Group 1 (Plus Digit)) (Cat (Star Space) (Cat (Lit CHR ''m'')
       (Cat (Opt (Group 2 (Cat (Lit CHR ''i'') (Cat (Lit CHR ''n'') (Cat (Lit CHR ''u'')
                   (Cat (Lit CHR ''t'') (Lit CHR ''e'')))))))
            (Opt (Lit CHR ''s'')))))"

text \<open>\<open>/(\d+)\s*s(econd)?s?/\<close>\<close>

definition seconds_re :: regex where
  "seconds_re =
     Cat (Group 1 (Plus Digit)) (Cat (Star Space) (Cat (Lit CHR ''s'')
       (Cat (Opt (Group 2 (Cat (Lit CHR ''e'') (Cat (Lit CHR ''c'') (Cat (Lit CHR ''o'')
                   (Cat (Lit CHR ''n'') (Lit CHR ''d'')))))))
            (Opt (Lit CHR ''s'')))))"

section \<open>The messaging client\<close>

text \<open>A thrown value.\<close>

datatype error = Error string

text \<open>
  An entry of the \<open>mentions\<close> option of \<open>chat.sendMessage\<close>: \<open>handleTagAll\<close> passes
  serialized identifiers, the other handlers pass contacts.
\<close>

datatype mention = MentionId string | MentionContact contact

text \<open>The lines the handlers write to the console, by their variable parts.\<close>

datatype log_line =
    CmdTagAll string string  \<comment> \<open>\<open>[CMD] Received $tagall! from "pushname" in chat "name".\<close>\<close>
  | InfoTagging nat nat  \<comment> \<open>\<open>[INFO] Tagging n participants in batches of b...\<close>\<close>
  | InfoSentBatch nat nat  \<comment> \<open>\<open>[INFO] Sent batch k of n.\<close>\<close>
  | SuccessTagging string  \<comment> \<open>\<open>[SUCCESS] Finished tagging all participants in chat "name".\<close>\<close>
  | ErrorTagAll error  \<comment> \<open>\<open>[ERROR] Failed to handle $tagall! command:\<close>\<close>
  | CmdRemind string  \<comment> \<open>\<open>[CMD] Received $remind from "pushname".\<close>\<close>
  | InfoTargetMentioned string  \<comment> \<open>\<open>[INFO] Reminder target is mentioned user: "pushname"\<close>\<close>
  | InfoTargetSender  \<comment> \<open>\<open>[INFO] Reminder target is the message sender.\<close>\<close>
  | SuccessReminder string  \<comment> \<open>\<open>[SUCCESS] Sent reminder to "pushname".\<close>\<close>
  | ErrorReminder error  \<comment> \<open>\<open>[ERROR] Failed to send scheduled reminder:\<close>\<close>
  | ErrorRemind error  \<comment> \<open>\<open>[ERROR] Failed to handle $remind command:\<close>\<close>
  | CmdRoast string string  \<comment> \<open>\<open>[CMD] Received $roast from "pushname" in chat "name".\<close>\<close>
  | SuccessRoast string string  \<comment> \<open>\<open>[SUCCESS] Roasted "pushname" in chat "name".\<close>\<close>
  | ErrorRoast error  \<comment> \<open>\<open>[ERROR] Failed to handle $roast command:\<close>\<close>
  | ErrorRoastFile error  \<comment> \<open>\<open>[ERROR] Could not read roasts.txt:\<close>\<close>

text \<open>
  What a handler does to the outside, in the order it does it: console lines, calls of
  \<open>message.reply\<close> and \<open>chat.sendMessage\<close> with what the call did (\<open>None\<close>: it resolved,
  \<open>Some e\<close>: it threw \<open>e\<close>), suspensions by \<open>sleep\<close>, and timers set with \<open>setTimeout\<close>
  (the contact the reminder is for, and the delay in milliseconds).
\<close>

datatype event =
    Log log_line
  | LogError log_line
  | Reply string "error option"
  | SendMessage string "mention list" "error option"
  | Sleep nat
  | SetTimeout contact number

text \<open>
  The collaborators of one handler invocation: what the accessors of the message
  resolve to, whether a reply or a send throws (which may depend on everything that
  happened before), what reading \<open>roasts.txt\<close> gives, and the value of \<open>Math.random()\<close>.
  \<open>getMentions\<close> may resolve to \<open>null\<close> or \<open>undefined\<close>, which is \<open>None\<close>.
\<close>

record env =
  getContact :: "error + contact"
  getChat :: "error + chat"
  getMentions :: "error + contact list option"
  reply_outcome :: "event list \<Rightarrow> string \<Rightarrow> error option"
  sendMessage_outcome :: "event list \<Rightarrow> string \<Rightarrow> mention list \<Rightarrow> error option"
  readFileSync :: "error + string"
  random :: real

text \<open>
  A handler is a function from the events so far to its outcome (\<open>Inl e\<close>: it threw
  \<open>e\<close>) and the events extended.
\<close>

type_synonym 'a outcome = "(error + 'a) \<times> event list"

definition reply :: "env \<Rightarrow> string \<Rightarrow> event list \<Rightarrow> unit outcome" where
  "reply E text tr =
     (let r = reply_outcome E tr text
      in (case r of None \<Rightarrow> Inr () | Some e \<Rightarrow> Inl e, tr @ [Reply text r]))"

definition sendMessage :: "env \<Rightarrow> string \<Rightarrow> mention list \<Rightarrow> event list \<Rightarrow> unit outcome" where
  "sendMessage E text mentions tr =
     (let r = sendMessage_outcome E tr text mentions
      in (case r of None \<Rightarrow> Inr () | Some e \<Rightarrow> Inl e, tr @ [SendMessage text mentions r]))"

section \<open>The roast selector\<close>

definition roast_file_empty :: string where
  "roast_file_empty =
     ''I tried to find a roast, but the roast file is empty. My disappointment is immeasurable.''"

definition roast_file_unreadable :: string where
  "roast_file_unreadable =
     ''I couldn't find my list of roasts. I guess you're safe... for now.''"

text \<open>
  \<open>getRandomRoast\<close>. The index is \<open>Math.floor(Math.random() * roasts.length)\<close>, with the
  product taken exactly; reading an array outside its bounds gives \<open>undefined\<close>, which
  is \<open>None\<close>. The \<open>catch\<close> turns any error of the body into the second fallback.
\<close>

definition getRandomRoast_try :: "env \<Rightarrow> error + string option" where
  "getRandomRoast_try E =
     (case readFileSync E of
        Inl e \<Rightarrow> Inl e
      | Inr content \<Rightarrow>
          (let roasts = filter (\<lambda>line. trim line \<noteq> []) (split CHR 0x0A content)
           in if length roasts = 0 then Inr (Some roast_file_empty)
              else (let index = \<lfloor>random E * real (length roasts)\<rfloor>
                    in if 0 \<le> index \<and> index < int (length roasts)
                       then Inr (Some (roasts ! nat index))
                       else Inr None)))"

definition getRandomRoast :: "env \<Rightarrow> event list \<Rightarrow> string option outcome" where
  "getRandomRoast E tr =
     (case getRandomRoast_try E of
        Inr roast \<Rightarrow> (Inr roast, tr)
      | Inl e \<Rightarrow> (Inr (Some roast_file_unreadable), tr @ [LogError (ErrorRoastFile e)]))"

section \<open>\<open>$tagall!\<close>\<close>

definition not_a_group :: string where
  "not_a_group = ''A novel concept, I know, but this command only functions within a group.''"

definition not_privileged :: string where
  "not_privileged =
     ''An admirable attempt, but this feature requires administrative privileges.''"

definition tagall_failed :: string where
  "tagall_failed =
     ''A critical error was encountered during the tagging process. Please try again later.''"

text \<open>
  The inner loop over a batch: it appends to \<open>mentions\<close> and to \<open>text\<close> for each
  participant in turn.
\<close>

definition tag_batch :: "participant list \<Rightarrow> string \<times> mention list" where
  "tag_batch batch =
     foldl (\<lambda>(text, mentions) participant.
              (text @ ''@'' @ user (id' participant) @ '' '',
               mentions @ [MentionId (serialized (id' participant))]))
           ([], []) batch"

text \<open>
  The outer loop, from index \<open>i\<close>, for a batch size \<open>B\<close> and a delay \<open>D\<close>. With \<open>B = 0\<close>
  the index never moves and the loop does not return, which is \<open>None\<close>. The console line
  carries \<open>Math.floor(i / B) + 1\<close> and \<open>Math.ceil(length / B)\<close>, which are numbers for
  \<open>B > 0\<close>.
\<close>

partial_function (option) tag_loop ::
  "env \<Rightarrow> nat \<Rightarrow> nat \<Rightarrow> participant list \<Rightarrow> nat \<Rightarrow> event list \<Rightarrow> unit outcome option" where
  "tag_loop E B D ps i tr =
     (if i < length ps then
        (let batch = slice ps i (i + B);
             tm = tag_batch batch
         in case sendMessage E (trim (fst tm)) (snd tm) tr of
              (Inl e, tr1) \<Rightarrow> Some (Inl e, tr1)
            | (Inr u, tr1) \<Rightarrow>
                tag_loop E B D ps (i + B)
                  (tr1 @ [Log (InfoSentBatch (i div B + 1) (nat \<lceil>real (length ps) / real B\<rceil>)),
                          Sleep D]))
      else Some (Inr (), tr))"

declare tag_loop.simps [code]

text \<open>The body of the \<open>try\<close> of \<open>handleTagAll\<close>.\<close>

definition tagAll_try :: "env \<Rightarrow> nat \<Rightarrow> nat \<Rightarrow> message \<Rightarrow> event list \<Rightarrow> unit outcome option" where
  "tagAll_try E B D m tr =
     (case getContact E of
        Inl e \<Rightarrow> Some (Inl e, tr)
      | Inr contact \<Rightarrow>
     (case getChat E of
        Inl e \<Rightarrow> Some (Inl e, tr)
      | Inr chat \<Rightarrow>
     (let tr1 = tr @ [Log (CmdTagAll (pushname contact) (name chat))]
      in if \<not> isGroup chat then Some (reply E not_a_group tr1)
         else if \<not> isUserAuthorized m chat then Some (reply E not_privileged tr1)
         else
           (let ps = participants chat;
                tr2 = tr1 @ [Log (InfoTagging (length ps) B)]
            in case tag_loop E B D ps 0 tr2 of
                 None \<Rightarrow> None
               | Some (Inl e, tr3) \<Rightarrow> Some (Inl e, tr3)
               | Some (Inr u, tr3) \<Rightarrow> Some (Inr (), tr3 @ [Log (SuccessTagging (name chat))])))))"

text \<open>
  The handler with its \<open>catch\<close>: the error is logged and the apology is sent with
  \<open>message.reply\<close>, whose own error nothing catches.
\<close>

definition tagAll :: "env \<Rightarrow> nat \<Rightarrow> nat \<Rightarrow> message \<Rightarrow> event list \<Rightarrow> unit outcome option" where
  "tagAll E B D m tr =
     (case tagAll_try E B D m tr of
        None \<Rightarrow> None
      | Some (Inr u, tr') \<Rightarrow> Some (Inr (), tr')
      | Some (Inl e, tr') \<Rightarrow> Some (reply E tagall_failed (tr' @ [LogError (ErrorTagAll e)])))"

definition handleTagAll :: "env \<Rightarrow> message \<Rightarrow> event list \<Rightarrow> unit outcome option" where
  "handleTagAll E m tr = tagAll E TAG_BATCH_SIZE TAG_DELAY_MS m tr"

section \<open>\<open>$remind\<close>\<close>

definition remind_format :: string where
  "remind_format =
     ''The time format provided is indecipherable. Please use a coherent structure, for instance: 'in 1 hour 30 minutes'.''"

definition remind_failed :: string where
  "remind_failed = ''An unexpected error prevented the reminder from being set.''"

text \<open>
  \<open>timeParts.hours ? parseInt(timeParts.hours[1], 10) : 0\<close>, for each of the three
  patterns, on the lower-cased body.
\<close>

definition time_part :: "regex \<Rightarrow> string \<Rightarrow> number" where
  "time_part r command =
     (case re_match r command of
        Some g \<Rightarrow> parseInt10 (g 1)
      | None \<Rightarrow> Fin 0)"

definition hours_of :: "string \<Rightarrow> number" where
  "hours_of command = time_part hours_re command"

definition minutes_of :: "string \<Rightarrow> number" where
  "minutes_of command = time_part minutes_re command"

definition seconds_of :: "string \<Rightarrow> number" where
  "seconds_of command = time_part seconds_re command"

definition totalSeconds :: "string \<Rightarrow> number" where
  "totalSeconds command =
     num_add (num_add (num_mul (hours_of command) (Fin 3600))
                      (num_mul (minutes_of command) (Fin 60)))
             (seconds_of command)"

definition remind_try :: "env \<Rightarrow> message \<Rightarrow> event list \<Rightarrow> unit outcome" where
  "remind_try E m tr =
     (let command = toLowerCase (body m)
      in case getContact E of
           Inl e \<Rightarrow> (Inl e, tr)
         | Inr senderContact \<Rightarrow>
        (case getChat E of
           Inl e \<Rightarrow> (Inl e, tr)
         | Inr chat \<Rightarrow>
        (let tr1 = tr @ [Log (CmdRemind (pushname senderContact))];
             hours = hours_of command;
             minutes = minutes_of command;
             seconds = seconds_of command
         in if num_le (totalSeconds command) (Fin 0) then reply E remind_format tr1
            else
              (case getMentions E of
                 Inl e \<Rightarrow> (Inl e, tr1)
               | Inr mentions \<Rightarrow>
              (let mentioned = (case mentions of None \<Rightarrow> [] | Some cs \<Rightarrow> cs);
                   targetContact = (case mentioned of [] \<Rightarrow> senderContact | c # _ \<Rightarrow> c);
                   tr2 = tr1 @ [Log (case mentioned of
                                       [] \<Rightarrow> InfoTargetSender
                                     | c # _ \<Rightarrow> InfoTargetMentioned (pushname c))];
                   confirmationMessage =
                     ''Acknowledged. A reminder has been scheduled for @'' @ number targetContact
                       @ '' in ''
                       @ (if num_gt hours (Fin 0) then show_number hours @ '' hour(s) '' else [])
                       @ (if num_gt minutes (Fin 0) then show_number minutes @ '' minute(s) ''
                          else [])
                       @ (if num_gt seconds (Fin 0) then show_number seconds @ '' second(s)''
                          else [])
               in case sendMessage E (trim confirmationMessage) [MentionContact targetContact] tr2 of
                    (Inl e, tr3) \<Rightarrow> (Inl e, tr3)
                  | (Inr u, tr3) \<Rightarrow>
                      (Inr (),
                       tr3 @ [SetTimeout targetContact
                                (num_mul (totalSeconds command) (Fin 1000))]))))))"

definition handleRemind :: "env \<Rightarrow> message \<Rightarrow> event list \<Rightarrow> unit outcome" where
  "handleRemind E m tr =
     (case remind_try E m tr of
        (Inr u, tr') \<Rightarrow> (Inr (), tr')
      | (Inl e, tr') \<Rightarrow> reply E remind_failed (tr' @ [LogError (ErrorRemind e)]))"

text \<open>The timer's callback: it sends the reminder and catches what the send throws.\<close>

definition reminder_callback :: "env \<Rightarrow> contact \<Rightarrow> event list \<Rightarrow> unit outcome" where
  "reminder_callback E targetContact tr =
     (case sendMessage E (''Attention @'' @ number targetContact
                            @ '': This is your scheduled reminder.'')
                       [MentionContact targetContact] tr of
        (Inr u, tr1) \<Rightarrow> (Inr (), tr1 @ [Log (SuccessReminder (pushname targetContact))])
      | (Inl err, tr1) \<Rightarrow> (Inr (), tr1 @ [LogError (ErrorReminder err)]))"

section \<open>\<open>$roast\<close>\<close>

definition roast_usage :: string where
  "roast_usage =
     ''Whom shall I verbally obliterate? Please specify by tagging them. '' @ [CHR 0x0A]
       @ ''Usage: $roast @name''"

definition roast_failed :: string where
  "roast_failed =
     ''An error occurred during my attempt at humor. How predictably disappointing.''"

definition roast_try :: "env \<Rightarrow> message \<Rightarrow> event list \<Rightarrow> unit outcome" where
  "roast_try E m tr =
     (case getContact E of
        Inl e \<Rightarrow> (Inl e, tr)
      | Inr senderContact \<Rightarrow>
     (case getChat E of
        Inl e \<Rightarrow> (Inl e, tr)
      | Inr chat \<Rightarrow>
     (let tr1 = tr @ [Log (CmdRoast (pushname senderContact)
                             (if name chat = [] then ''private chat'' else name chat))]
      in case getMentions E of
           Inl e \<Rightarrow> (Inl e, tr1)
         | Inr mentions \<Rightarrow>
        (case (case mentions of None \<Rightarrow> [] | Some cs \<Rightarrow> cs) of
           [] \<Rightarrow> reply E roast_usage tr1
         | targetContact # _ \<Rightarrow>
             (case getRandomRoast E tr1 of
                (Inl e, tr2) \<Rightarrow> (Inl e, tr2)
              | (Inr roast, tr2) \<Rightarrow>
                  (let roastMessage =
                         ''Attention @'' @ number targetContact @ '', a message for you: ''
                           @ (case roast of None \<Rightarrow> ''undefined'' | Some r \<Rightarrow> r)
                   in case sendMessage E roastMessage [MentionContact targetContact] tr2 of
                        (Inl e, tr3) \<Rightarrow> (Inl e, tr3)
                      | (Inr u, tr3) \<Rightarrow>
                          (Inr (),
                           tr3 @ [Log (SuccessRoast (pushname targetContact) (name chat))])))))))"

definition handleRoast :: "env \<Rightarrow> message \<Rightarrow> event list \<Rightarrow> unit outcome" where
  "handleRoast E m tr =
     (case roast_try E m tr of
        (Inr u, tr') \<Rightarrow> (Inr (), tr')
      | (Inl e, tr') \<Rightarrow> reply E roast_failed (tr' @ [LogError (ErrorRoast e)]))"

section \<open>The dispatcher\<close>

text \<open>The \<open>message\<close> listener: the first prefix that matches selects the handler.\<close>

definition on_message :: "env \<Rightarrow> message \<Rightarrow> event list \<Rightarrow> unit outcome option" where
  "on_message E m tr =
     (let command = toLowerCase (trim (body m))
      in if startsWith command ''$tagall!'' then handleTagAll E m tr
         else if startsWith command ''$remind'' then Some (handleRemind E m tr)
         else if startsWith command ''$roast'' then Some (handleRoast E m tr)
         else Some (Inr (), tr))"

section \<open>Reading a trace\<close>

text \<open>
  The \<open>k\<close>-th batch of a participant list for a batch size \<open>B\<close>, counting from zero, and
  the events of a round of the loop of \<open>handleTagAll\<close> whose send resolves: the send of
  the batch, the console line, the suspension.
\<close>

definition batch_of :: "nat \<Rightarrow> participant list \<Rightarrow> nat \<Rightarrow> participant list" where
  "batch_of B ps k = slice ps (k * B) (k * B + B)"

definition batch_send :: "nat \<Rightarrow> participant list \<Rightarrow> nat \<Rightarrow> error option \<Rightarrow> event" where
  "batch_send B ps k r =
     SendMessage (trim (fst (tag_batch (batch_of B ps k)))) (snd (tag_batch (batch_of B ps k))) r"

definition round_events :: "nat \<Rightarrow> nat \<Rightarrow> participant list \<Rightarrow> nat \<Rightarrow> event list" where
  "round_events B D ps k =
     [batch_send B ps k None,
      Log (InfoSentBatch (k + 1) (nat \<lceil>real (length ps) / real B\<rceil>)),
      Sleep D]"

definition rounds :: "nat \<Rightarrow> nat \<Rightarrow> participant list \<Rightarrow> nat \<Rightarrow> nat \<Rightarrow> event list" where
  "rounds B D ps k n = concat (map (round_events B D ps) [k..<n])"

text \<open>The mention lists of the messages a trace sent to the chat, in order.\<close>

fun sent_mentions :: "event list \<Rightarrow> mention list list" where
  "sent_mentions [] = []"
| "sent_mentions (SendMessage text mentions None # es) = mentions # sent_mentions es"
| "sent_mentions (e # es) = sent_mentions es"

text \<open>The error of an event that is a call which threw.\<close>

fun failure :: "event \<Rightarrow> error option" where
  "failure (Reply text r) = r"
| "failure (SendMessage text mentions r) = r"
| "failure e = None"

fun is_send :: "event \<Rightarrow> bool" where
  "is_send (SendMessage text mentions r) = True"
| "is_send e = False"

fun is_reply :: "event \<Rightarrow> bool" where
  "is_reply (Reply text r) = True"
| "is_reply e = False"

fun is_sleep :: "event \<Rightarrow> bool" where
  "is_sleep (Sleep d) = True"
| "is_sleep e = False"

fun is_timer :: "event \<Rightarrow> bool" where
  "is_timer (SetTimeout c d) = True"
| "is_timer e = False"

text \<open>\<open>Array.prototype.join\<close> with a single space.\<close>

fun join_space :: "string list \<Rightarrow> string" where
  "join_space [] = []"
| "join_space [x] = x"
| "join_space (x # y # ys) = x @ '' '' @ join_space (y # ys)"

text \<open>The texts a trace passed to \<open>message.reply\<close>, in order.\<close>

fun reply_texts :: "event list \<Rightarrow> string list" where
  "reply_texts [] = []"
| "reply_texts (Reply text r # es) = text # reply_texts es"
| "reply_texts (e # es) = reply_texts es"

text \<open>The numbers of the capture groups of a pattern.\<close>

fun groups :: "regex \<Rightarrow> nat set" where
  "groups (Cat r1 r2) = groups r1 \<union> groups r2"
| "groups (Star r) = groups r"
| "groups (Opt r) = groups r"
| "groups (Group k r) = insert k (groups r)"
| "groups r = {}"

section \<open>The unit phrases of a time span\<close>

text \<open>
  The unit patterns as the specification reads them: a number with its unit is a run
  of digits that is not empty, then white space or none, then the letter of the unit.
  \<open>phrase_here u s\<close> is the run of digits when the text \<open>s\<close> starts with such a phrase
  for the letter \<open>u\<close>, and \<open>first_phrase u s\<close> is the run of digits at the first place of
  \<open>s\<close>, from the left, where such a phrase starts. \<open>phrase_value\<close> is the integer the
  digits write, zero without a phrase, and \<open>phrase_number\<close> is its double.
\<close>

definition phrase_here :: "char \<Rightarrow> string \<Rightarrow> string option" where
  "phrase_here u s =
     (let ds = takeWhile isDigit s;
          t = dropWhile isWhiteSpace (dropWhile isDigit s)
      in if ds \<noteq> [] \<and> (case t of [] \<Rightarrow> False | c # _ \<Rightarrow> c = u) then Some ds else None)"

fun first_phrase :: "char \<Rightarrow> string \<Rightarrow> string option" where
  "first_phrase u [] = None"
| "first_phrase u (c # cs) =
     (case phrase_here u (c # cs) of
        Some ds \<Rightarrow> Some ds
      | None \<Rightarrow> first_phrase u cs)"

definition phrase_value :: "string option \<Rightarrow> int" where
  "phrase_value p = (case p of None \<Rightarrow> 0 | Some ds \<Rightarrow> decimal ds)"

definition phrase_number :: "string option \<Rightarrow> number" where
  "phrase_number p = to_double (phrase_value p)"

text \<open>A number that is not negative: a finite one from zero on, or the positive infinity.\<close>

fun not_negative :: "number \<Rightarrow> bool" where
  "not_negative (Fin v) = (0 \<le> v)"
| "not_negative PInf = True"
| "not_negative a = False"

section \<open>Example inputs\<close>

text \<open>
  A group of \<open>n\<close> members numbered from zero, of which member zero is the admin, and
  messages written in it by the admin and by member one.
\<close>

definition member :: "nat \<Rightarrow> participant" where
  "member n = \<lparr>id' = \<lparr>serialized = show_nat n @ ''@c.us'', user = show_nat n\<rparr>, isAdmin = (n = 0)\<rparr>"

definition group_of :: "nat \<Rightarrow> chat" where
  "group_of n = \<lparr>name = ''g'', isGroup = True, participants = map member [0..<n]\<rparr>"

definition private_chat :: chat where
  "private_chat = \<lparr>name = [], isGroup = False, participants = []\<rparr>"

definition message_of :: "nat \<Rightarrow> string \<Rightarrow> message" where
  "message_of n text = \<lparr>body = text, author = Some (show_nat n @ ''@c.us''), from' = ''g@g.us''\<rparr>"

definition alice :: contact where
  "alice = \<lparr>pushname = ''Alice'', number = ''111''\<rparr>"

definition bob :: contact where
  "bob = \<lparr>pushname = ''Bob'', number = ''222''\<rparr>"

text \<open>
  Collaborators that never throw, for a given chat, list of mentioned contacts and
  content of \<open>roasts.txt\<close>.
\<close>

definition quiet_env :: "chat \<Rightarrow> contact list \<Rightarrow> string \<Rightarrow> env" where
  "quiet_env ch cs content =
     \<lparr>getContact = Inr alice, getChat = Inr ch, getMentions = Inr (Some cs),
      reply_outcome = (\<lambda>h text. None), sendMessage_outcome = (\<lambda>h text ms. None),
      readFileSync = Inr content, random = 1 / 2\<rparr>"

text \<open>Collaborators whose second and later sends throw.\<close>

definition flaky_env :: "chat \<Rightarrow> env" where
  "flaky_env ch =
     \<lparr>getContact = Inr alice, getChat = Inr ch, getMentions = Inr (Some []),
      reply_outcome = (\<lambda>h text. None),
      sendMessage_outcome =
        (\<lambda>h text ms. if 1 \<le> length (sent_mentions h) then Some (Error ''rate limit'') else None),
      readFileSync = Inr [], random = 0\<rparr>"

text \<open>Collaborators of which every call throws.\<close>

definition deaf_env :: env where
  "deaf_env =
     \<lparr>getContact = Inl (Error ''no contact''), getChat = Inl (Error ''no chat''),
      getMentions = Inl (Error ''no mentions''),
      reply_outcome = (\<lambda>h text. Some (Error ''no reply'')),
      sendMessage_outcome = (\<lambda>h text ms. Some (Error ''no send'')),
      readFileSync = Inl (Error ''ENOENT''), random = 0\<rparr>"

text \<open>A roast file of two roasts between blank lines.\<close>

definition two_roasts :: string where
  "two_roasts = ''You are slow.'' @ [CHR 0x0A, CHR 0x0A] @ ''  '' @ [CHR 0x0A]
                  @ ''You are late.'' @ [CHR 0x0A]"

section \<open>Properties of the authorization check\<close>

lemma find_first_index:
  "(case List.find P xs of Some x \<Rightarrow> Q x | None \<Rightarrow> False) \<longleftrightarrow>
   (\<exists>i < length xs. P (xs ! i) \<and> Q (xs ! i) \<and> (\<forall>j < i. \<not> P (xs ! j)))"
proof (cases "List.find P xs")
  case None
  have "\<not> (\<exists>x. x \<in> set xs \<and> P x)"
    using None unfolding find_None_iff by blast
  then have "\<not> (\<exists>i < length xs. P (xs ! i) \<and> Q (xs ! i) \<and> (\<forall>j < i. \<not> P (xs ! j)))"
    using nth_mem by blast
  then show ?thesis by (simp only: None option.case)
next
  case (Some y)
  then obtain i where i: "i < length xs" "P (xs ! i)" "y = xs ! i" "\<forall>j < i. \<not> P (xs ! j)"
    unfolding find_Some_iff by blast
  have "k = i" if "k < length xs" "P (xs ! k)" "\<forall>j < k. \<not> P (xs ! j)" for k
    using that i by (meson linorder_neqE_nat)
  then have "(\<exists>k < length xs. P (xs ! k) \<and> Q (xs ! k) \<and> (\<forall>j < k. \<not> P (xs ! j))) \<longleftrightarrow> Q y"
    using i by blast
  then show ?thesis by (simp only: Some option.case)
qed

lemma find_distinct_key:
  assumes "distinct (map f xs)"
  shows "(case List.find (\<lambda>x. f x = k) xs of Some x \<Rightarrow> Q x | None \<Rightarrow> False) \<longleftrightarrow>
         (\<exists>x \<in> set xs. f x = k \<and> Q x)"
proof (cases "List.find (\<lambda>x. f x = k) xs")
  case None
  have "\<not> (\<exists>x. x \<in> set xs \<and> f x = k)"
    using None unfolding find_None_iff by blast
  then have "\<not> (\<exists>x \<in> set xs. f x = k \<and> Q x)" by blast
  then show ?thesis by (simp only: None option.case)
next
  case (Some y)
  then have y: "y \<in> set xs" "f y = k"
    unfolding find_Some_iff by auto
  have "x = y" if "x \<in> set xs" "f x = k" for x
    using assms that y by (auto simp: distinct_map dest: inj_onD)
  then have "(\<exists>x \<in> set xs. f x = k \<and> Q x) \<longleftrightarrow> Q y"
    using y by blast
  then show ?thesis by (simp only: Some option.case)
qed

text \<open>
  Claim C3. A sender on the allow-list is authorized whatever the chat is. For a sender
  that is not listed, in a chat whose participant list has one entry for each identifier,
  the check holds exactly when the chat is a group and the list contains an entry with
  the sender's identifier whose admin flag is set. A sender that is not listed is not
  authorized in a private chat. Whatever the list is, the entry that decides is the
  first one that carries the sender's identifier.
\<close>

theorem isUserAuthorized_allow_list_or_admin:
  "(senderId m \<in> set SUPER_ADMINS \<longrightarrow> isUserAuthorized m c) \<and>
   (senderId m \<notin> set SUPER_ADMINS \<and> distinct (map (\<lambda>p. serialized (id' p)) (participants c)) \<longrightarrow>
      (isUserAuthorized m c \<longleftrightarrow>
         isGroup c \<and>
         (\<exists>p \<in> set (participants c). serialized (id' p) = senderId m \<and> isAdmin p))) \<and>
   (senderId m \<notin> set SUPER_ADMINS \<and> \<not> isGroup c \<longrightarrow> \<not> isUserAuthorized m c) \<and>
   (senderId m \<notin> set SUPER_ADMINS \<longrightarrow>
      (isUserAuthorized m c \<longleftrightarrow>
         isGroup c \<and>
         (\<exists>i < length (participants c).
            serialized (id' (participants c ! i)) = senderId m \<and>
            isAdmin (participants c ! i) \<and>
            (\<forall>j < i. serialized (id' (participants c ! j)) \<noteq> senderId m))))"
proof -
  let ?P = "\<lambda>p. serialized (id' p) = senderId m"
  have a: "isUserAuthorized m c" if "senderId m \<in> set SUPER_ADMINS"
    using that by (simp add: isUserAuthorized_def)
  have b: "isUserAuthorized m c \<longleftrightarrow>
             isGroup c \<and> (case List.find ?P (participants c) of Some x \<Rightarrow> isAdmin x | None \<Rightarrow> False)"
    if "senderId m \<notin> set SUPER_ADMINS"
    using that by (simp add: isUserAuthorized_def)
  show ?thesis
    using a b find_first_index [where P = "?P" and xs = "participants c" and Q = isAdmin]
      find_distinct_key [where f = "\<lambda>p. serialized (id' p)" and xs = "participants c"
        and k = "senderId m" and Q = isAdmin]
    by blast
qed

text \<open>
  A group of two members whose second member is its admin and writes the message.
\<close>

theorem isUserAuthorized_allow_list_or_admin_witness:
  "senderId \<lparr>body = ''$tagall!'', author = Some ''222@c.us'', from' = ''g@g.us''\<rparr> \<notin> set SUPER_ADMINS \<and>
   distinct (map (\<lambda>p. serialized (id' p))
     [\<lparr>id' = \<lparr>serialized = ''111@c.us'', user = ''111''\<rparr>, isAdmin = False\<rparr>,
      \<lparr>id' = \<lparr>serialized = ''222@c.us'', user = ''222''\<rparr>, isAdmin = True\<rparr>]) \<and>
   isUserAuthorized \<lparr>body = ''$tagall!'', author = Some ''222@c.us'', from' = ''g@g.us''\<rparr>
     \<lparr>name = ''g'', isGroup = True,
      participants =
        [\<lparr>id' = \<lparr>serialized = ''111@c.us'', user = ''111''\<rparr>, isAdmin = False\<rparr>,
         \<lparr>id' = \<lparr>serialized = ''222@c.us'', user = ''222''\<rparr>, isAdmin = True\<rparr>]\<rparr>"
  using isUserAuthorized_allow_list_or_admin
    [of "\<lparr>body = ''$tagall!'', author = Some ''222@c.us'', from' = ''g@g.us''\<rparr>"
        "\<lparr>name = ''g'', isGroup = True,
      participants =
        [\<lparr>id' = \<lparr>serialized = ''111@c.us'', user = ''111''\<rparr>, isAdmin = False\<rparr>,
         \<lparr>id' = \<lparr>serialized = ''222@c.us'', user = ''222''\<rparr>, isAdmin = True\<rparr>]\<rparr>",
     THEN conjunct2, THEN conjunct1]
  by (simp add: senderId_def SUPER_ADMINS_def)

section \<open>Properties of \<open>$tagall!\<close>\<close>

lemma lt_ceil_iff:
  fixes k N B :: nat
  assumes "0 < B"
  shows "k < (N + B - 1) div B \<longleftrightarrow> k * B < N"
proof -
  have "k < (N + B - 1) div B \<longleftrightarrow> Suc k \<le> (N + B - 1) div B"
    by auto
  also have "\<dots> \<longleftrightarrow> Suc k * B \<le> N + B - 1"
    using assms by (simp only: less_eq_div_iff_mult_less_eq)
  also have "\<dots> \<longleftrightarrow> k * B < N"
    using assms by auto
  finally show ?thesis .
qed

lemma ceil_div_nat:
  assumes "0 < B"
  shows "nat \<lceil>real N / real B\<rceil> = (N + B - 1) div B"
proof -
  let ?q = "(N + B - 1) div B"
  have up: "N \<le> ?q * B"
    using lt_ceil_iff [OF assms, of ?q N] by auto
  have lo: "real N > (real ?q - 1) * real B"
  proof (cases "?q = 0")
    case True
    with assms have "(real ?q - 1) * real B < 0" by simp
    then show ?thesis by (smt (verit) of_nat_0_le_iff)
  next
    case False
    then have "(?q - 1) * B < N"
      using lt_ceil_iff [OF assms, of "?q - 1" N] by auto
    then have "real ((?q - 1) * B) < real N"
      by (simp only: of_nat_less_iff)
    with False show ?thesis by (simp add: of_nat_diff)
  qed
  have "\<lceil>real N / real B\<rceil> = int ?q"
  proof (rule ceiling_unique)
    show "of_int (int ?q) - 1 < real N / real B"
      using lo assms by (simp add: pos_less_divide_eq)
    have "real N \<le> real (?q * B)"
      using up by (simp only: of_nat_le_iff)
    then show "real N / real B \<le> of_int (int ?q)"
      using assms by (simp add: pos_divide_le_eq)
  qed
  then show ?thesis by simp
qed

lemma lt_ceiling_iff:
  assumes "0 < B"
  shows "k < nat \<lceil>real N / real B\<rceil> \<longleftrightarrow> k * B < N"
  using assms by (simp only: ceil_div_nat lt_ceil_iff)

lemma tag_batch_foldl:
  "foldl (\<lambda>(text, mentions) participant.
              (text @ ''@'' @ user (id' participant) @ '' '',
               mentions @ [MentionId (serialized (id' participant))]))
         (t, ms) batch =
   (t @ concat (map (\<lambda>p. ''@'' @ user (id' p) @ '' '') batch),
    ms @ map (\<lambda>p. MentionId (serialized (id' p))) batch)"
  by (induction batch arbitrary: t ms) simp_all

lemma tag_batch_eq:
  "tag_batch batch =
     (concat (map (\<lambda>p. ''@'' @ user (id' p) @ '' '') batch),
      map (\<lambda>p. MentionId (serialized (id' p))) batch)"
  unfolding tag_batch_def by (simp only: tag_batch_foldl append_Nil)

lemma rounds_empty: "rounds B D ps k k = []"
  by (simp add: rounds_def)

lemma rounds_step:
  "k < n \<Longrightarrow> rounds B D ps k n = round_events B D ps k @ rounds B D ps (Suc k) n"
  by (simp add: rounds_def upt_conv_Cons)

lemma tag_loop_done:
  "\<not> i < length ps \<Longrightarrow> tag_loop E B D ps i tr = Some (Inr (), tr)"
  by (subst tag_loop.simps) simp

lemma tag_loop_send_fails:
  assumes "k * B < length ps"
    and "sendMessage_outcome E tr (trim (fst (tag_batch (batch_of B ps k))))
           (snd (tag_batch (batch_of B ps k))) = Some e"
  shows "tag_loop E B D ps (k * B) tr = Some (Inl e, tr @ [batch_send B ps k (Some e)])"
  using assms
  by (subst tag_loop.simps) (simp add: sendMessage_def batch_of_def batch_send_def Let_def)

lemma tag_loop_send_ok:
  assumes "0 < B" "k * B < length ps"
    and "sendMessage_outcome E tr (trim (fst (tag_batch (batch_of B ps k))))
           (snd (tag_batch (batch_of B ps k))) = None"
  shows "tag_loop E B D ps (k * B) tr =
         tag_loop E B D ps (Suc k * B) (tr @ round_events B D ps k)"
  using assms
  by (subst tag_loop.simps)
     (simp add: sendMessage_def batch_of_def batch_send_def round_events_def Let_def add.commute)

lemma tag_loop_shape_aux:
  assumes B: "0 < B" and nb: "nb = nat \<lceil>real (length ps) / real B\<rceil>" and k: "k \<le> nb"
  shows "tag_loop E B D ps (k * B) tr = Some (Inr (), tr @ rounds B D ps k nb) \<or>
         (\<exists>n e. k \<le> n \<and> n < nb \<and>
            sendMessage_outcome E (tr @ rounds B D ps k n)
              (trim (fst (tag_batch (batch_of B ps n)))) (snd (tag_batch (batch_of B ps n))) = Some e \<and>
            tag_loop E B D ps (k * B) tr =
              Some (Inl e, tr @ rounds B D ps k n @ [batch_send B ps n (Some e)]))"
  using k
proof (induction "nb - k" arbitrary: k tr)
  case 0
  then have "k = nb" by simp
  then have "\<not> k * B < length ps"
    using lt_ceiling_iff [OF B, of k "length ps"] nb by simp
  then have "tag_loop E B D ps (k * B) tr = Some (Inr (), tr)"
    by (rule tag_loop_done)
  with \<open>k = nb\<close> show ?case by (simp add: rounds_empty)
next
  case (Suc d)
  let ?out = "sendMessage_outcome E tr (trim (fst (tag_batch (batch_of B ps k))))
                (snd (tag_batch (batch_of B ps k)))"
  from Suc.hyps(2) have lt: "k < nb" by simp
  then have kB: "k * B < length ps"
    using lt_ceiling_iff [OF B, of k "length ps"] nb by simp
  show ?case
  proof (cases ?out)
    case (Some e)
    then have "tag_loop E B D ps (k * B) tr = Some (Inl e, tr @ [batch_send B ps k (Some e)])"
      by (rule tag_loop_send_fails [OF kB])
    with Some lt have "k \<le> k \<and> k < nb \<and>
        sendMessage_outcome E (tr @ rounds B D ps k k)
          (trim (fst (tag_batch (batch_of B ps k)))) (snd (tag_batch (batch_of B ps k))) = Some e \<and>
        tag_loop E B D ps (k * B) tr =
          Some (Inl e, tr @ rounds B D ps k k @ [batch_send B ps k (Some e)])"
      by (simp add: rounds_empty)
    then show ?thesis by blast
  next
    case None
    then have step: "tag_loop E B D ps (k * B) tr =
        tag_loop E B D ps (Suc k * B) (tr @ round_events B D ps k)"
      by (rule tag_loop_send_ok [OF B kB])
    have d: "d = nb - Suc k" using Suc.hyps(2) by simp
    have le: "Suc k \<le> nb" using lt by simp
    from Suc.hyps(1) [OF d le, of "tr @ round_events B D ps k"]
    show ?thesis
    proof
      assume "tag_loop E B D ps (Suc k * B) (tr @ round_events B D ps k) =
                Some (Inr (), (tr @ round_events B D ps k) @ rounds B D ps (Suc k) nb)"
      with step lt show ?thesis by (simp add: rounds_step)
    next
      assume "\<exists>n e. Suc k \<le> n \<and> n < nb \<and>
            sendMessage_outcome E ((tr @ round_events B D ps k) @ rounds B D ps (Suc k) n)
              (trim (fst (tag_batch (batch_of B ps n)))) (snd (tag_batch (batch_of B ps n))) = Some e \<and>
            tag_loop E B D ps (Suc k * B) (tr @ round_events B D ps k) =
              Some (Inl e, (tr @ round_events B D ps k) @ rounds B D ps (Suc k) n @ [batch_send B ps n (Some e)])"
      then obtain n e where n: "Suc k \<le> n" "n < nb"
        and out: "sendMessage_outcome E ((tr @ round_events B D ps k) @ rounds B D ps (Suc k) n)
              (trim (fst (tag_batch (batch_of B ps n)))) (snd (tag_batch (batch_of B ps n))) = Some e"
        and res: "tag_loop E B D ps (Suc k * B) (tr @ round_events B D ps k) =
              Some (Inl e, (tr @ round_events B D ps k) @ rounds B D ps (Suc k) n @ [batch_send B ps n (Some e)])"
        by blast
      from n have kn: "k < n" by simp
      have "k \<le> n \<and> n < nb \<and>
            sendMessage_outcome E (tr @ rounds B D ps k n)
              (trim (fst (tag_batch (batch_of B ps n)))) (snd (tag_batch (batch_of B ps n))) = Some e \<and>
            tag_loop E B D ps (k * B) tr =
              Some (Inl e, tr @ rounds B D ps k n @ [batch_send B ps n (Some e)])"
        using n out res step by (simp add: rounds_step [OF kn])
      then show ?thesis by blast
    qed
  qed
qed

text \<open>
  The loop from the start: either every send resolves and the loop runs all its rounds,
  or the rounds before some batch \<open>n\<close> run, the send of batch \<open>n\<close> throws, and the loop
  throws what the send threw.
\<close>

lemma tag_loop_shape:
  assumes "0 < B"
  shows "tag_loop E B D ps 0 tr =
           Some (Inr (), tr @ rounds B D ps 0 (nat \<lceil>real (length ps) / real B\<rceil>)) \<or>
         (\<exists>n e. n < nat \<lceil>real (length ps) / real B\<rceil> \<and>
            sendMessage_outcome E (tr @ rounds B D ps 0 n)
              (trim (fst (tag_batch (batch_of B ps n)))) (snd (tag_batch (batch_of B ps n))) = Some e \<and>
            tag_loop E B D ps 0 tr =
              Some (Inl e, tr @ rounds B D ps 0 n @ [batch_send B ps n (Some e)]))"
  using tag_loop_shape_aux [OF assms refl, of 0 ps E D tr] by simp

lemma tagAll_getContact_fails:
  assumes "getContact E = Inl e"
  shows "tagAll E B D m tr =
         Some (reply E tagall_failed (tr @ [LogError (ErrorTagAll e)]))"
  using assms by (simp add: tagAll_def tagAll_try_def)

lemma tagAll_getChat_fails:
  assumes "getContact E = Inr c" "getChat E = Inl e"
  shows "tagAll E B D m tr =
         Some (reply E tagall_failed (tr @ [LogError (ErrorTagAll e)]))"
  using assms by (simp add: tagAll_def tagAll_try_def)

lemma tagAll_refused:
  assumes "getContact E = Inr c" "getChat E = Inr ch"
    and "\<not> isGroup ch \<or> \<not> isUserAuthorized m ch"
    and "tr1 = tr @ [Log (CmdTagAll (pushname c) (name ch))]"
    and "text = (if \<not> isGroup ch then not_a_group else not_privileged)"
  shows "tagAll E B D m tr =
         (case reply_outcome E tr1 text of
            None \<Rightarrow> Some (Inr (), tr1 @ [Reply text None])
          | Some e \<Rightarrow> Some (reply E tagall_failed
                            (tr1 @ [Reply text (Some e), LogError (ErrorTagAll e)])))"
  using assms by (auto simp add: tagAll_def tagAll_try_def reply_def Let_def split: option.splits)

lemma tagAll_loop:
  assumes "getContact E = Inr c" "getChat E = Inr ch" "isGroup ch" "isUserAuthorized m ch"
    and "tr2 = tr @ [Log (CmdTagAll (pushname c) (name ch)),
                     Log (InfoTagging (length (participants ch)) B)]"
  shows "tagAll E B D m tr =
         (case tag_loop E B D (participants ch) 0 tr2 of
            None \<Rightarrow> None
          | Some (Inl e, tr3) \<Rightarrow> Some (reply E tagall_failed (tr3 @ [LogError (ErrorTagAll e)]))
          | Some (Inr u, tr3) \<Rightarrow> Some (Inr (), tr3 @ [Log (SuccessTagging (name ch))]))"
  using assms
  by (auto simp add: tagAll_def tagAll_try_def Let_def split: option.splits sum.splits prod.splits)

lemma tagAll_all_sent:
  assumes B: "0 < B"
    and pre: "getContact E = Inr c" "getChat E = Inr ch" "isGroup ch" "isUserAuthorized m ch"
    and ok: "\<forall>h t ms. sendMessage_outcome E h t ms = None"
  shows "tagAll E B D m tr =
         Some (Inr (),
               tr @ [Log (CmdTagAll (pushname c) (name ch)),
                     Log (InfoTagging (length (participants ch)) B)]
                  @ rounds B D (participants ch) 0 (nat \<lceil>real (length (participants ch)) / real B\<rceil>)
                  @ [Log (SuccessTagging (name ch))])"
proof -
  let ?tr2 = "tr @ [Log (CmdTagAll (pushname c) (name ch)),
                    Log (InfoTagging (length (participants ch)) B)]"
  have "tag_loop E B D (participants ch) 0 ?tr2 =
           Some (Inr (), ?tr2 @ rounds B D (participants ch) 0
                   (nat \<lceil>real (length (participants ch)) / real B\<rceil>)) \<or>
        (\<exists>n e. n < nat \<lceil>real (length (participants ch)) / real B\<rceil> \<and>
            sendMessage_outcome E (?tr2 @ rounds B D (participants ch) 0 n)
              (trim (fst (tag_batch (batch_of B (participants ch) n))))
              (snd (tag_batch (batch_of B (participants ch) n))) = Some e \<and>
            tag_loop E B D (participants ch) 0 ?tr2 =
              Some (Inl e, ?tr2 @ rounds B D (participants ch) 0 n
                             @ [batch_send B (participants ch) n (Some e)]))"
    by (rule tag_loop_shape [OF B])
  with ok have "tag_loop E B D (participants ch) 0 ?tr2 =
          Some (Inr (), ?tr2 @ rounds B D (participants ch) 0
                  (nat \<lceil>real (length (participants ch)) / real B\<rceil>))"
    by auto
  then show ?thesis
    using tagAll_loop [OF pre refl, where B = B and D = D and tr = tr] by simp
qed

lemma sent_mentions_append:
  "sent_mentions (xs @ ys) = sent_mentions xs @ sent_mentions ys"
  by (induction xs rule: sent_mentions.induct) simp_all

lemma sent_mentions_rounds:
  "sent_mentions (rounds B D ps 0 n) = map (\<lambda>k. snd (tag_batch (batch_of B ps k))) [0..<n]"
  by (induction n)
     (simp_all add: rounds_def sent_mentions_append round_events_def batch_send_def)

lemma concat_batches:
  "concat (map (batch_of B ps) [0..<n]) = take (n * B) ps"
proof (induction n)
  case 0
  show ?case by simp
next
  case (Suc n)
  have "concat (map (batch_of B ps) [0..<Suc n]) =
          concat (map (batch_of B ps) [0..<n]) @ batch_of B ps n"
    by simp
  also have "\<dots> = take (n * B) ps @ batch_of B ps n"
    by (simp only: Suc)
  also have "\<dots> = take (n * B) ps @ take B (drop (n * B) ps)"
    by (simp add: batch_of_def slice_def)
  also have "\<dots> = take (n * B + B) ps"
    by (simp only: take_add)
  also have "n * B + B = Suc n * B"
    by simp
  finally show ?case .
qed

lemma length_batch_of: "length (batch_of B ps k) \<le> B"
  by (simp add: batch_of_def slice_def)

lemma all_batches:
  assumes "0 < B"
  shows "concat (map (batch_of B ps) [0..<nat \<lceil>real (length ps) / real B\<rceil>]) = ps"
proof -
  let ?nb = "nat \<lceil>real (length ps) / real B\<rceil>"
  have "\<not> ?nb * B < length ps"
    using lt_ceiling_iff [OF assms, of ?nb "length ps"] by simp
  then show ?thesis by (simp add: concat_batches)
qed

text \<open>
  Claim C1. For a batch size \<open>B > 0\<close>, when the contact and the chat resolve, the chat
  is a group, the sender is authorized and no send throws, the handler returns, and the
  messages it sent to the chat are \<open>\<lceil>N / B\<rceil>\<close> in number for \<open>N\<close> participants, each
  mentions at most \<open>B\<close> of them, and their mention lists, one after the other, are the
  serialized identifiers of the participant list in its order.
\<close>

theorem tagAll_partition:
  assumes "0 < B"
    and "getContact E = Inr c" and "getChat E = Inr ch"
    and "isGroup ch" and "isUserAuthorized m ch"
    and "\<forall>h t ms. sendMessage_outcome E h t ms = None"
  shows "\<exists>new. tagAll E B D m tr = Some (Inr (), tr @ new) \<and>
           length (sent_mentions new) = nat \<lceil>real (length (participants ch)) / real B\<rceil> \<and>
           (\<forall>ms \<in> set (sent_mentions new). length ms \<le> B) \<and>
           concat (sent_mentions new) = map (\<lambda>p. MentionId (serialized (id' p))) (participants ch)"
proof -
  let ?ps = "participants ch"
  let ?nb = "nat \<lceil>real (length ?ps) / real B\<rceil>"
  let ?new = "[Log (CmdTagAll (pushname c) (name ch)), Log (InfoTagging (length ?ps) B)]
                @ rounds B D ?ps 0 ?nb @ [Log (SuccessTagging (name ch))]"
  have run: "tagAll E B D m tr = Some (Inr (), tr @ ?new)"
    using tagAll_all_sent [OF assms, where D = D and tr = tr] by simp
  have sm: "sent_mentions ?new = map (\<lambda>k. snd (tag_batch (batch_of B ?ps k))) [0..<?nb]"
    by (simp add: sent_mentions_append sent_mentions_rounds)
  have len: "length (sent_mentions ?new) = ?nb"
    by (simp only: sm length_map length_upt diff_zero)
  have each: "\<forall>ms \<in> set (sent_mentions ?new). length ms \<le> B"
    unfolding sm by (auto simp add: tag_batch_eq length_batch_of)
  have "concat (sent_mentions ?new) =
          map (\<lambda>p. MentionId (serialized (id' p))) (concat (map (batch_of B ?ps) [0..<?nb]))"
    unfolding sm by (simp add: tag_batch_eq map_concat comp_def)
  then have cat: "concat (sent_mentions ?new) = map (\<lambda>p. MentionId (serialized (id' p))) ?ps"
    by (simp only: all_batches [OF assms(1)])
  from run len each cat show ?thesis by blast
qed

text \<open>
  The handler as configured, in a group of 51 members: two messages.
\<close>

theorem tagAll_partition_witness:
  "isUserAuthorized (message_of 0 ''$tagall!'') (group_of 51) \<and>
   length (sent_mentions (snd (the (handleTagAll (quiet_env (group_of 51) [] [])
                                       (message_of 0 ''$tagall!'') [])))) = 2"
proof -
  have h1: "0 < TAG_BATCH_SIZE"
    by (simp add: TAG_BATCH_SIZE_def)
  have h2: "getContact (quiet_env (group_of 51) [] []) = Inr alice"
    by (simp add: quiet_env_def)
  have h3: "getChat (quiet_env (group_of 51) [] []) = Inr (group_of 51)"
    by (simp add: quiet_env_def)
  have h4: "isGroup (group_of 51)"
    by (simp add: group_of_def)
  have h5: "isUserAuthorized (message_of 0 ''$tagall!'') (group_of 51)"
    by code_simp
  have h6: "\<forall>h t ms. sendMessage_outcome (quiet_env (group_of 51) [] []) h t ms = None"
    by (simp add: quiet_env_def)
  have n: "nat \<lceil>real (length (participants (group_of 51))) / real TAG_BATCH_SIZE\<rceil> = 2"
    by (simp add: group_of_def TAG_BATCH_SIZE_def)
  from tagAll_partition [OF h1 h2 h3 h4 h5 h6, where D = TAG_DELAY_MS and tr = "[]"] h5
  show ?thesis by (auto simp add: n handleTagAll_def)
qed

lemma filter_rounds:
  "filter (\<lambda>ev. is_send ev \<or> is_sleep ev) (rounds B D ps 0 n) =
   concat (map (\<lambda>k. [batch_send B ps k None, Sleep D]) [0..<n])"
  by (induction n) (simp_all add: rounds_def round_events_def batch_send_def)

text \<open>
  Claim C2, as amended. Under the same conditions, the sends and the suspensions of the
  handler alternate from the first batch to the last: every batch is sent and then
  followed by one suspension of \<open>D\<close> milliseconds, the final batch included. So exactly
  one pause lies between two consecutive sends, and one more follows the last send.
\<close>

theorem tagAll_pause_after_every_batch:
  assumes "0 < B"
    and "getContact E = Inr c" and "getChat E = Inr ch"
    and "isGroup ch" and "isUserAuthorized m ch"
    and "\<forall>h t ms. sendMessage_outcome E h t ms = None"
  shows "\<exists>new. tagAll E B D m tr = Some (Inr (), tr @ new) \<and>
           filter (\<lambda>ev. is_send ev \<or> is_sleep ev) new =
             concat (map (\<lambda>k. [batch_send B (participants ch) k None, Sleep D])
                         [0..<nat \<lceil>real (length (participants ch)) / real B\<rceil>])"
proof -
  let ?ps = "participants ch"
  let ?nb = "nat \<lceil>real (length ?ps) / real B\<rceil>"
  let ?new = "[Log (CmdTagAll (pushname c) (name ch)), Log (InfoTagging (length ?ps) B)]
                @ rounds B D ?ps 0 ?nb @ [Log (SuccessTagging (name ch))]"
  have run: "tagAll E B D m tr = Some (Inr (), tr @ ?new)"
    using tagAll_all_sent [OF assms, where D = D and tr = tr] by simp
  have "filter (\<lambda>ev. is_send ev \<or> is_sleep ev) ?new =
          concat (map (\<lambda>k. [batch_send B ?ps k None, Sleep D]) [0..<?nb])"
    by (simp add: filter_rounds)
  with run show ?thesis by blast
qed

text \<open>
  Five members in batches of two: three sends, each followed by its pause.
\<close>

theorem tagAll_pause_after_every_batch_witness:
  "isUserAuthorized (message_of 0 ''$tagall!'') (group_of 5) \<and>
   filter (\<lambda>ev. is_send ev \<or> is_sleep ev)
     (snd (the (tagAll (quiet_env (group_of 5) [] []) 2 1000 (message_of 0 ''$tagall!'') []))) =
   [SendMessage ''@0 @1'' [MentionId ''0@c.us'', MentionId ''1@c.us''] None, Sleep 1000,
    SendMessage ''@2 @3'' [MentionId ''2@c.us'', MentionId ''3@c.us''] None, Sleep 1000,
    SendMessage ''@4'' [MentionId ''4@c.us''] None, Sleep 1000]"
proof -
  have h1: "(0::nat) < 2" by simp
  have h2: "getContact (quiet_env (group_of 5) [] []) = Inr alice"
    by (simp add: quiet_env_def)
  have h3: "getChat (quiet_env (group_of 5) [] []) = Inr (group_of 5)"
    by (simp add: quiet_env_def)
  have h4: "isGroup (group_of 5)"
    by (simp add: group_of_def)
  have h5: "isUserAuthorized (message_of 0 ''$tagall!'') (group_of 5)"
    by code_simp
  have h6: "\<forall>h t ms. sendMessage_outcome (quiet_env (group_of 5) [] []) h t ms = None"
    by (simp add: quiet_env_def)
  have ev: "concat (map (\<lambda>k. [batch_send 2 (participants (group_of 5)) k None, Sleep 1000])
                        [0..<nat \<lceil>real (length (participants (group_of 5))) / real 2\<rceil>]) =
     [SendMessage ''@0 @1'' [MentionId ''0@c.us'', MentionId ''1@c.us''] None, Sleep 1000,
      SendMessage ''@2 @3'' [MentionId ''2@c.us'', MentionId ''3@c.us''] None, Sleep 1000,
      SendMessage ''@4'' [MentionId ''4@c.us''] None, Sleep 1000]"
    by code_simp
  from tagAll_pause_after_every_batch [OF h1 h2 h3 h4 h5 h6, where D = 1000 and tr = "[]"] h5
  show ?thesis by (auto simp only: ev append_Nil option.sel snd_conv)
qed

text \<open>
  Claim C2 as stated fails: with 51 members and the batch size 50 of the configuration
  the handler sends two batches, and after the send of the second and last one it still
  suspends for 1000 milliseconds before it finishes.
\<close>

theorem tagAll_pause_counterexample:
  "handleTagAll (quiet_env (group_of 51) [] []) (message_of 0 ''$tagall!'') [] \<noteq> None \<and>
   drop 5 (snd (the (handleTagAll (quiet_env (group_of 51) [] []) (message_of 0 ''$tagall!'') []))) =
     [SendMessage ''@50'' [MentionId ''50@c.us''] None, Log (InfoSentBatch 2 2),
      Sleep 1000, Log (SuccessTagging ''g'')]"
  by code_simp

lemma not_listed_not_admin:
  assumes "senderId m \<notin> set SUPER_ADMINS"
    and "\<not> (\<exists>p \<in> set (participants ch). serialized (id' p) = senderId m \<and> isAdmin p)"
  shows "\<not> isUserAuthorized m ch"
proof -
  have "(case List.find (\<lambda>p. serialized (id' p) = senderId m) (participants ch) of
           Some p \<Rightarrow> isAdmin p | None \<Rightarrow> False) = False"
  proof (cases "List.find (\<lambda>p. serialized (id' p) = senderId m) (participants ch)")
    case None
    then show ?thesis by simp
  next
    case (Some p)
    then have "p \<in> set (participants ch)" "serialized (id' p) = senderId m"
      unfolding find_Some_iff by auto
    with assms(2) have "\<not> isAdmin p" by blast
    with Some show ?thesis by simp
  qed
  with assms(1) show ?thesis by (simp add: isUserAuthorized_def)
qed

lemma refusals_differ:
  "not_a_group \<noteq> not_privileged" "tagall_failed \<noteq> not_a_group" "tagall_failed \<noteq> not_privileged"
  by (simp_all add: not_a_group_def not_privileged_def tagall_failed_def)

text \<open>
  Claim C6. When the contact and the chat resolve and the chat is not a group, or the
  sender is neither on the allow-list nor an admin entry of the participant list, the
  handler returns for every batch size, sends nothing to the chat, and makes exactly
  one reply with a refusal text, which is its first reply: the not-a-group text when
  the chat is not a group, the no-privilege text otherwise, and the two texts differ.
  When that reply resolves it is the only reply and the handler returns normally.
\<close>

theorem tagAll_refusal:
  assumes "getContact E = Inr c" and "getChat E = Inr ch"
    and "\<not> isGroup ch \<or>
         (senderId m \<notin> set SUPER_ADMINS \<and>
          \<not> (\<exists>p \<in> set (participants ch). serialized (id' p) = senderId m \<and> isAdmin p))"
    and "text = (if \<not> isGroup ch then not_a_group else not_privileged)"
    and "r = reply_outcome E (tr @ [Log (CmdTagAll (pushname c) (name ch))]) text"
  shows "\<exists>res new. tagAll E B D m tr = Some (res, tr @ new) \<and>
           filter is_send new = [] \<and>
           filter (\<lambda>t. t = not_a_group \<or> t = not_privileged) (reply_texts new) = [text] \<and>
           take 1 (filter is_reply new) = [Reply text r] \<and>
           (r = None \<longrightarrow> res = Inr () \<and> filter is_reply new = [Reply text None]) \<and>
           not_a_group \<noteq> not_privileged"
proof -
  let ?tr1 = "tr @ [Log (CmdTagAll (pushname c) (name ch))]"
  have refused: "\<not> isGroup ch \<or> \<not> isUserAuthorized m ch"
    using assms(3) not_listed_not_admin by blast
  note run = tagAll_refused [OF assms(1,2) refused refl assms(4), where tr = tr and B = B and D = D]
  show ?thesis
  proof (cases r)
    case None
    then have out: "reply_outcome E ?tr1 text = None"
      using assms(5) by simp
    have "tagAll E B D m tr = Some (Inr (), tr @ [Log (CmdTagAll (pushname c) (name ch)), Reply text None])"
      using run by (simp add: out)
    then show ?thesis
      using None refusals_differ assms(4) by simp
  next
    case (Some e)
    then have out: "reply_outcome E ?tr1 text = Some e"
      using assms(5) by simp
    let ?r2 = "reply_outcome E (?tr1 @ [Reply text (Some e), LogError (ErrorTagAll e)]) tagall_failed"
    have "tagAll E B D m tr =
            Some (case ?r2 of None \<Rightarrow> Inr () | Some e' \<Rightarrow> Inl e',
                  tr @ [Log (CmdTagAll (pushname c) (name ch)), Reply text (Some e),
                        LogError (ErrorTagAll e), Reply tagall_failed ?r2])"
      using run by (simp add: out reply_def Let_def)
    then show ?thesis
      using Some refusals_differ assms(4) by simp
  qed
qed

text \<open>
  A private chat: nothing is sent and the only reply is the not-a-group text.
\<close>

theorem tagAll_refusal_witness:
  "isGroup private_chat = False \<and>
   filter is_send
     (snd (the (tagAll (quiet_env private_chat [] []) 50 1000 (message_of 1 ''$tagall!'') []))) = [] \<and>
   reply_texts
     (snd (the (tagAll (quiet_env private_chat [] []) 50 1000 (message_of 1 ''$tagall!'') []))) =
     [not_a_group]"
proof -
  have h1: "getContact (quiet_env private_chat [] []) = Inr alice"
    by (simp add: quiet_env_def)
  have h2: "getChat (quiet_env private_chat [] []) = Inr private_chat"
    by (simp add: quiet_env_def)
  have g: "\<not> isGroup private_chat"
    by (simp add: private_chat_def)
  then have h3: "\<not> isGroup private_chat \<or>
      (senderId (message_of 1 ''$tagall!'') \<notin> set SUPER_ADMINS \<and>
       \<not> (\<exists>p \<in> set (participants private_chat).
             serialized (id' p) = senderId (message_of 1 ''$tagall!'') \<and> isAdmin p))"
    by simp
  have h4: "not_a_group = (if \<not> isGroup private_chat then not_a_group else not_privileged)"
    using g by simp
  have out: "reply_outcome (quiet_env private_chat [] []) h t = None" for h t
    by (simp add: quiet_env_def)
  from tagAll_refusal [OF h1 h2 h3 h4 refl, where tr = "[]" and B = 50 and D = 1000]
  obtain res new where
    run: "tagAll (quiet_env private_chat [] []) 50 1000 (message_of 1 ''$tagall!'') [] = Some (res, [] @ new)"
    and s: "filter is_send new = []"
    and r: "filter is_reply new = [Reply not_a_group None]"
    unfolding out by blast
  have "reply_texts new = reply_texts (filter is_reply new)"
    by (induction new rule: reply_texts.induct) simp_all
  with run s r g show ?thesis by simp
qed

lemma rounds_no_failure: "ev \<in> set (rounds B D ps k n) \<Longrightarrow> failure ev = None"
  by (auto simp add: rounds_def round_events_def batch_send_def)

lemma rounds_sends:
  "SendMessage text ments r \<in> set (rounds B D ps k n) \<Longrightarrow>
   \<exists>j. k \<le> j \<and> j < n \<and> SendMessage text ments r = batch_send B ps j None"
  by (auto simp add: rounds_def round_events_def batch_send_def)

text \<open>
  Claim C7, as amended. For a batch size \<open>B > 0\<close> the handler returns, in one of two
  ways. Either contact and chat resolve, no call it makes throws, and it returns
  normally. Or something throws an error \<open>e\<close>: the contact or chat resolution, before the
  handler has done anything, or a reply or a send, which is then the last thing the
  body of the handler does after calls that all resolved. In that case the body stops
  there, so no further batch is sent and none is sent again; the handler logs \<open>e\<close> and
  makes one apology reply, after which it does nothing more. It returns normally when
  the apology reply resolves, and throws what the apology reply threw otherwise.
\<close>

theorem tagAll_catch:
  assumes "0 < B"
  shows "\<exists>res new. tagAll E B D m tr = Some (res, tr @ new) \<and>
     ((\<exists>c. getContact E = Inr c) \<and> (\<exists>ch. getChat E = Inr ch) \<and>
      (\<forall>ev \<in> set new. failure ev = None) \<and> res = Inr ()
      \<or>
      (\<exists>e pre r. new = pre @ [LogError (ErrorTagAll e), Reply tagall_failed r] \<and>
         r = reply_outcome E (tr @ pre @ [LogError (ErrorTagAll e)]) tagall_failed \<and>
         res = (case r of None \<Rightarrow> Inr () | Some e' \<Rightarrow> Inl e') \<and>
         (\<forall>ev \<in> set (butlast pre). failure ev = None) \<and>
         (if pre = [] then getContact E = Inl e \<or> getChat E = Inl e
          else failure (last pre) = Some e)))"
    (is "\<exists>res new. ?run res new \<and> (?calm res new \<or> ?caught res new)")
proof -
  have caught: "\<exists>res new. ?run res new \<and> (?calm res new \<or> ?caught res new)"
    if run: "tagAll E B D m tr = Some (reply E tagall_failed (tr @ pre @ [LogError (ErrorTagAll e)]))"
      and pre: "\<forall>ev \<in> set (butlast pre). failure ev = None"
        "if pre = [] then getContact E = Inl e \<or> getChat E = Inl e else failure (last pre) = Some e"
    for pre e
  proof -
    let ?r = "reply_outcome E (tr @ pre @ [LogError (ErrorTagAll e)]) tagall_failed"
    let ?res = "case ?r of None \<Rightarrow> Inr () | Some e' \<Rightarrow> Inl e'"
    have "?run ?res (pre @ [LogError (ErrorTagAll e), Reply tagall_failed ?r])"
      using run by (simp add: reply_def Let_def)
    with pre show ?thesis by blast
  qed
  show ?thesis
  proof (cases "getContact E")
    case (Inl e)
    have "tagAll E B D m tr = Some (reply E tagall_failed (tr @ [] @ [LogError (ErrorTagAll e)]))"
      using tagAll_getContact_fails [OF Inl] by simp
    moreover have "\<forall>ev \<in> set (butlast []). failure ev = None"
      by simp
    moreover have "if [] = [] then getContact E = Inl e \<or> getChat E = Inl e
                   else failure (last []) = Some e"
      using Inl by simp
    ultimately show ?thesis by (rule caught)
  next
    case c: (Inr c)
    show ?thesis
    proof (cases "getChat E")
      case (Inl e)
      have "tagAll E B D m tr = Some (reply E tagall_failed (tr @ [] @ [LogError (ErrorTagAll e)]))"
        using tagAll_getChat_fails [OF c Inl] by simp
      moreover have "\<forall>ev \<in> set (butlast []). failure ev = None"
        by simp
      moreover have "if [] = [] then getContact E = Inl e \<or> getChat E = Inl e
                     else failure (last []) = Some e"
        using Inl by simp
      ultimately show ?thesis by (rule caught)
    next
      case ch: (Inr ch)
      let ?cmd = "Log (CmdTagAll (pushname c) (name ch))"
      show ?thesis
      proof (cases "isGroup ch \<and> isUserAuthorized m ch")
        case False
        let ?text = "if \<not> isGroup ch then not_a_group else not_privileged"
        from False have refused: "\<not> isGroup ch \<or> \<not> isUserAuthorized m ch" by blast
        note run = tagAll_refused [OF c ch refused refl refl, where tr = tr and B = B and D = D]
        show ?thesis
        proof (cases "reply_outcome E (tr @ [?cmd]) ?text")
          case None
          have "?run (Inr ()) [?cmd, Reply ?text None]"
            using run by (simp add: None)
          moreover have "?calm (Inr ()) [?cmd, Reply ?text None]"
            using c ch by simp
          ultimately show ?thesis by blast
        next
          case (Some e)
          have "tagAll E B D m tr =
                  Some (reply E tagall_failed
                          (tr @ [?cmd, Reply ?text (Some e)] @ [LogError (ErrorTagAll e)]))"
            using run by (simp add: Some)
          moreover have "\<forall>ev \<in> set (butlast [?cmd, Reply ?text (Some e)]). failure ev = None"
            by simp
          moreover have "if [?cmd, Reply ?text (Some e)] = []
                         then getContact E = Inl e \<or> getChat E = Inl e
                         else failure (last [?cmd, Reply ?text (Some e)]) = Some e"
            by simp
          ultimately show ?thesis by (rule caught)
        qed
      next
        case True
        let ?ps = "participants ch"
        let ?nb = "nat \<lceil>real (length ?ps) / real B\<rceil>"
        let ?head = "[?cmd, Log (InfoTagging (length ?ps) B)]"
        from True have g: "isGroup ch" and a: "isUserAuthorized m ch" by simp_all
        note run = tagAll_loop [OF c ch g a refl, where tr = tr and B = B and D = D]
        have "tag_loop E B D ?ps 0 (tr @ ?head) =
                Some (Inr (), (tr @ ?head) @ rounds B D ?ps 0 ?nb) \<or>
              (\<exists>n e. n < ?nb \<and>
                 sendMessage_outcome E ((tr @ ?head) @ rounds B D ?ps 0 n)
                   (trim (fst (tag_batch (batch_of B ?ps n)))) (snd (tag_batch (batch_of B ?ps n))) = Some e \<and>
                 tag_loop E B D ?ps 0 (tr @ ?head) =
                   Some (Inl e, (tr @ ?head) @ rounds B D ?ps 0 n @ [batch_send B ?ps n (Some e)]))"
          by (rule tag_loop_shape [OF assms])
        then show ?thesis
        proof
          assume loop: "tag_loop E B D ?ps 0 (tr @ ?head) =
                          Some (Inr (), (tr @ ?head) @ rounds B D ?ps 0 ?nb)"
          let ?new = "?head @ rounds B D ?ps 0 ?nb @ [Log (SuccessTagging (name ch))]"
          have "?run (Inr ()) ?new"
            using run by (simp add: loop)
          moreover have "?calm (Inr ()) ?new"
            using c ch by (auto dest: rounds_no_failure)
          ultimately show ?thesis by blast
        next
          assume "\<exists>n e. n < ?nb \<and>
                 sendMessage_outcome E ((tr @ ?head) @ rounds B D ?ps 0 n)
                   (trim (fst (tag_batch (batch_of B ?ps n)))) (snd (tag_batch (batch_of B ?ps n))) = Some e \<and>
                 tag_loop E B D ?ps 0 (tr @ ?head) =
                   Some (Inl e, (tr @ ?head) @ rounds B D ?ps 0 n @ [batch_send B ?ps n (Some e)])"
          then obtain n e where loop: "tag_loop E B D ?ps 0 (tr @ ?head) =
                   Some (Inl e, (tr @ ?head) @ rounds B D ?ps 0 n @ [batch_send B ?ps n (Some e)])"
            by blast
          let ?pre = "?head @ rounds B D ?ps 0 n @ [batch_send B ?ps n (Some e)]"
          have "tagAll E B D m tr =
                  Some (reply E tagall_failed (tr @ ?pre @ [LogError (ErrorTagAll e)]))"
            using run by (simp add: loop)
          moreover have "butlast ?pre = ?head @ rounds B D ?ps 0 n"
            by (simp add: butlast_append)
          then have "\<forall>ev \<in> set (butlast ?pre). failure ev = None"
            by (auto dest: rounds_no_failure)
          moreover have "if ?pre = [] then getContact E = Inl e \<or> getChat E = Inl e
                         else failure (last ?pre) = Some e"
            by (simp add: batch_send_def)
          ultimately show ?thesis by (rule caught)
        qed
      qed
    qed
  qed
qed

text \<open>
  Five members in batches of two, where the second send throws: the third batch is
  never sent, the error is logged, the apology is replied and the handler returns.
\<close>

theorem tagAll_catch_witness:
  "tagAll (flaky_env (group_of 5)) 2 1000 (message_of 0 ''$tagall!'') [] =
   Some (Inr (),
     [Log (CmdTagAll ''Alice'' ''g''), Log (InfoTagging 5 2),
      SendMessage ''@0 @1'' [MentionId ''0@c.us'', MentionId ''1@c.us''] None,
      Log (InfoSentBatch 1 3), Sleep 1000,
      SendMessage ''@2 @3'' [MentionId ''2@c.us'', MentionId ''3@c.us''] (Some (Error ''rate limit'')),
      LogError (ErrorTagAll (Error ''rate limit'')), Reply tagall_failed None])"
proof -
  have h: "(0::nat) < 2" by simp
  have "tagAll (flaky_env (group_of 5)) 2 1000 (message_of 0 ''$tagall!'') [] =
   Some (Inr (),
     [Log (CmdTagAll ''Alice'' ''g''), Log (InfoTagging 5 2),
      SendMessage ''@0 @1'' [MentionId ''0@c.us'', MentionId ''1@c.us''] None,
      Log (InfoSentBatch 1 3), Sleep 1000,
      SendMessage ''@2 @3'' [MentionId ''2@c.us'', MentionId ''3@c.us''] (Some (Error ''rate limit'')),
      LogError (ErrorTagAll (Error ''rate limit'')), Reply tagall_failed None])"
    by code_simp
  with tagAll_catch [OF h, where E = "flaky_env (group_of 5)" and D = 1000
      and m = "message_of 0 ''$tagall!''" and tr = "[]"]
  show ?thesis by blast
qed

text \<open>
  Claim C7 as stated fails in its last part: when the contact resolution throws and the
  apology reply throws as well, the handler throws the error of the reply.
\<close>

theorem tagAll_catch_counterexample:
  "handleTagAll deaf_env (message_of 0 ''$tagall!'') [] =
   Some (Inl (Error ''no reply''),
         [LogError (ErrorTagAll (Error ''no contact'')),
          Reply tagall_failed (Some (Error ''no reply''))])"
  by code_simp

lemma concat_spaced:
  "toks \<noteq> [] \<Longrightarrow> concat (map (\<lambda>t. t @ '' '') toks) = join_space toks @ '' ''"
  by (induction toks rule: join_space.induct) simp_all

lemma trimEnd_space: "trimEnd (s @ '' '') = trimEnd s"
  by (simp add: trimEnd_def isWhiteSpace_def)

lemma trimStart_at: "trimStart (CHR ''@'' # s) = CHR ''@'' # s"
  by (simp add: trimStart_def isWhiteSpace_def)

lemma join_space_hd:
  "toks \<noteq> [] \<Longrightarrow> hd toks = c # s \<Longrightarrow> \<exists>s'. join_space toks = c # s'"
  by (induction toks rule: join_space.induct) auto

lemma trim_batch_text:
  "trim (concat (map (\<lambda>p. CHR ''@'' # user (id' p) @ '' '') batch)) =
   trimEnd (join_space (map (\<lambda>p. CHR ''@'' # user (id' p)) batch))"
proof (cases batch)
  case Nil
  then show ?thesis by (simp add: trim_def trimStart_def trimEnd_def)
next
  case (Cons p ps)
  let ?toks = "map (\<lambda>p. CHR ''@'' # user (id' p)) batch"
  have ne: "?toks \<noteq> []" using Cons by simp
  have "concat (map (\<lambda>p. CHR ''@'' # user (id' p) @ '' '') batch) = concat (map (\<lambda>t. t @ '' '') ?toks)"
    by (simp add: comp_def)
  also have "\<dots> = join_space ?toks @ '' ''"
    using ne by (rule concat_spaced)
  finally have body_eq: "concat (map (\<lambda>p. CHR ''@'' # user (id' p) @ '' '') batch) = join_space ?toks @ '' ''" .
  obtain s' where s': "join_space ?toks = CHR ''@'' # s'"
    using join_space_hd [OF ne, of "CHR ''@''" "user (id' p)"] Cons by auto
  have "trimStart (join_space ?toks @ '' '') = join_space ?toks @ '' ''"
    unfolding s' by (simp add: trimStart_at)
  then show ?thesis
    by (simp only: body_eq trim_def trimEnd_space)
qed

lemma split_no_separator: "c \<notin> set x \<Longrightarrow> split c x = [x]"
  by (induction x) auto

lemma split_at_separator: "c \<notin> set x \<Longrightarrow> split c (x @ c # rest) = x # split c rest"
  by (induction x) auto

lemma split_join_space:
  "toks \<noteq> [] \<Longrightarrow> \<forall>t \<in> set toks. CHR '' '' \<notin> set t \<Longrightarrow>
   split CHR '' '' (join_space toks) = toks"
proof (induction toks rule: join_space.induct)
  case 1
  then show ?case by simp
next
  case (2 x)
  then show ?case by (simp add: split_no_separator)
next
  case (3 x y ys)
  then have "split CHR '' '' (join_space (y # ys)) = y # ys"
    by simp
  moreover have "CHR '' '' \<notin> set x"
    using "3.prems" by simp
  ultimately show ?case
    using split_at_separator [of "CHR '' ''" x "join_space (y # ys)"] by simp
qed

lemma join_space_nonempty: "toks \<noteq> [] \<Longrightarrow> last toks \<noteq> [] \<Longrightarrow> join_space toks \<noteq> []"
  by (induction toks rule: join_space.induct) auto

lemma last_join_space:
  "toks \<noteq> [] \<Longrightarrow> last toks \<noteq> [] \<Longrightarrow> last (join_space toks) = last (last toks)"
proof (induction toks rule: join_space.induct)
  case 1
  then show ?case by simp
next
  case (2 x)
  then show ?case by simp
next
  case (3 x y ys)
  then have "join_space (y # ys) \<noteq> []"
    using join_space_nonempty [of "y # ys"] by simp
  with 3 show ?case by simp
qed

lemma trimEnd_unchanged: "s \<noteq> [] \<Longrightarrow> \<not> isWhiteSpace (last s) \<Longrightarrow> trimEnd s = s"
proof -
  assume s: "s \<noteq> []" "\<not> isWhiteSpace (last s)"
  then obtain xs x where "s = xs @ [x]" "\<not> isWhiteSpace x"
    by (cases s rule: rev_cases) auto
  then show ?thesis by (simp add: trimEnd_def)
qed

text \<open>
  When no handle contains white space, the text of a batch splits at its spaces into
  the tokens of the batch.
\<close>

lemma batch_text_tokens:
  assumes "batch \<noteq> []"
    and "\<forall>p \<in> set batch. \<forall>c \<in> set (user (id' p)). \<not> isWhiteSpace c"
  shows "split CHR '' '' (trimEnd (join_space (map (\<lambda>p. CHR ''@'' # user (id' p)) batch))) =
         map (\<lambda>p. CHR ''@'' # user (id' p)) batch"
proof -
  let ?toks = "map (\<lambda>p. CHR ''@'' # user (id' p)) batch"
  have sp: "isWhiteSpace CHR '' ''" "\<not> isWhiteSpace CHR ''@''"
    by (simp_all add: isWhiteSpace_def)
  have ne: "?toks \<noteq> []" "last ?toks \<noteq> []"
    using assms(1) by (simp_all add: last_map)
  have clean: "\<forall>t \<in> set ?toks. \<forall>c \<in> set t. \<not> isWhiteSpace c"
    using assms(2) sp(2) by auto
  then have nosp: "\<forall>t \<in> set ?toks. CHR '' '' \<notin> set t"
    using sp(1) by blast
  have "last ?toks \<in> set ?toks"
    using ne(1) by (rule last_in_set)
  moreover have "last (last ?toks) \<in> set (last ?toks)"
    using ne(2) by (rule last_in_set)
  ultimately have "\<not> isWhiteSpace (last (last ?toks))"
    using clean by blast
  moreover have "last (join_space ?toks) = last (last ?toks)"
    by (rule last_join_space [OF ne])
  ultimately have "\<not> isWhiteSpace (last (join_space ?toks))"
    by simp
  then have "trimEnd (join_space ?toks) = join_space ?toks"
    using join_space_nonempty [OF ne] by (rule trimEnd_unchanged [rotated])
  then show ?thesis
    by (simp only: split_join_space [OF ne(1) nosp])
qed

text \<open>
  Claim C10. For a batch size \<open>B > 0\<close> and whatever the collaborators do, every message
  the handler passes to \<open>chat.sendMessage\<close> belongs to a batch of the participant list:
  its mentions are the serialized identifiers of the participants of the batch in
  their order, and its text is the handles of these participants, each behind an
  \<open>@\<close>, joined by single spaces, with trailing white space trimmed. So there are as many
  mentions as handle tokens; and when no handle contains white space, splitting the
  text at its spaces gives these tokens back.
\<close>

theorem tagAll_batch_message:
  assumes "0 < B"
  shows "\<exists>res new. tagAll E B D m tr = Some (res, tr @ new) \<and>
     (\<forall>t ments r. SendMessage t ments r \<in> set new \<longrightarrow>
        (\<exists>ch k. getChat E = Inr ch \<and> k * B < length (participants ch) \<and>
           ments = map (\<lambda>p. MentionId (serialized (id' p))) (batch_of B (participants ch) k) \<and>
           t = trimEnd (join_space (map (\<lambda>p. CHR ''@'' # user (id' p))
                                        (batch_of B (participants ch) k))) \<and>
           length ments = length (map (\<lambda>p. CHR ''@'' # user (id' p))
                                      (batch_of B (participants ch) k)) \<and>
           ((\<forall>p \<in> set (batch_of B (participants ch) k).
               \<forall>c \<in> set (user (id' p)). \<not> isWhiteSpace c) \<longrightarrow>
            split CHR '' '' t = map (\<lambda>p. CHR ''@'' # user (id' p))
                                    (batch_of B (participants ch) k))))"
    (is "\<exists>res new. ?run res new \<and> (\<forall>t ments r. SendMessage t ments r \<in> set new \<longrightarrow> ?ok t ments)")
proof -
  have other: "\<exists>res new. ?run res new \<and>
      (\<forall>t ments r. SendMessage t ments r \<in> set new \<longrightarrow> ?ok t ments)"
    if "tagAll E B D m tr = Some (res, tr @ new)" "filter is_send new = []" for res new
  proof -
    have "\<not> SendMessage t ments r \<in> set new" for t ments r
      using that(2) by (auto simp add: filter_empty_conv)
    with that(1) show ?thesis by blast
  qed
  show ?thesis
  proof (cases "getContact E")
    case (Inl e)
    have "tagAll E B D m tr = Some (case reply_outcome E (tr @ [LogError (ErrorTagAll e)]) tagall_failed of
              None \<Rightarrow> Inr () | Some e' \<Rightarrow> Inl e',
            tr @ [LogError (ErrorTagAll e),
                  Reply tagall_failed (reply_outcome E (tr @ [LogError (ErrorTagAll e)]) tagall_failed)])"
      using tagAll_getContact_fails [OF Inl] by (simp add: reply_def Let_def)
    then show ?thesis by (rule other) simp
  next
    case c: (Inr c)
    show ?thesis
    proof (cases "getChat E")
      case (Inl e)
      have "tagAll E B D m tr = Some (case reply_outcome E (tr @ [LogError (ErrorTagAll e)]) tagall_failed of
                None \<Rightarrow> Inr () | Some e' \<Rightarrow> Inl e',
              tr @ [LogError (ErrorTagAll e),
                    Reply tagall_failed (reply_outcome E (tr @ [LogError (ErrorTagAll e)]) tagall_failed)])"
        using tagAll_getChat_fails [OF c Inl] by (simp add: reply_def Let_def)
      then show ?thesis by (rule other) simp
    next
      case ch: (Inr ch)
      let ?cmd = "Log (CmdTagAll (pushname c) (name ch))"
      show ?thesis
      proof (cases "isGroup ch \<and> isUserAuthorized m ch")
        case False
        let ?text = "if \<not> isGroup ch then not_a_group else not_privileged"
        from False have refused: "\<not> isGroup ch \<or> \<not> isUserAuthorized m ch" by blast
        note run = tagAll_refused [OF c ch refused refl refl, where tr = tr and B = B and D = D]
        show ?thesis
        proof (cases "reply_outcome E (tr @ [?cmd]) ?text")
          case None
          have "tagAll E B D m tr = Some (Inr (), tr @ [?cmd, Reply ?text None])"
            using run by (simp add: None)
          then show ?thesis by (rule other) simp
        next
          case (Some e)
          let ?r = "reply_outcome E (tr @ [?cmd, Reply ?text (Some e), LogError (ErrorTagAll e)]) tagall_failed"
          have "tagAll E B D m tr =
                  Some (case ?r of None \<Rightarrow> Inr () | Some e' \<Rightarrow> Inl e',
                        tr @ [?cmd, Reply ?text (Some e), LogError (ErrorTagAll e),
                              Reply tagall_failed ?r])"
            using run by (simp add: Some reply_def Let_def)
          then show ?thesis by (rule other) simp
        qed
      next
        case True
        let ?ps = "participants ch"
        let ?nb = "nat \<lceil>real (length ?ps) / real B\<rceil>"
        let ?head = "[?cmd, Log (InfoTagging (length ?ps) B)]"
        from True have g: "isGroup ch" and a: "isUserAuthorized m ch" by simp_all
        note run = tagAll_loop [OF c ch g a refl, where tr = tr and B = B and D = D]
        have batch: "?ok t ments"
          if "SendMessage t ments r = batch_send B ?ps j r'" "j < ?nb" for t ments r j r'
        proof -
          let ?batch = "batch_of B ?ps j"
          from that(2) have j: "j * B < length ?ps"
            using lt_ceiling_iff [OF assms, of j "length ?ps"] by simp
          then have ne: "?batch \<noteq> []"
            using assms by (simp add: batch_of_def slice_def)
          have ments: "ments = map (\<lambda>p. MentionId (serialized (id' p))) ?batch"
            using that(1) by (simp add: batch_send_def tag_batch_eq)
          have t: "t = trimEnd (join_space (map (\<lambda>p. CHR ''@'' # user (id' p)) ?batch))"
            using that(1) by (simp add: batch_send_def tag_batch_eq trim_batch_text)
          have len: "length ments = length (map (\<lambda>p. CHR ''@'' # user (id' p)) ?batch)"
            using ments by simp
          have toks: "(\<forall>p \<in> set ?batch. \<forall>c \<in> set (user (id' p)). \<not> isWhiteSpace c) \<longrightarrow>
              split CHR '' '' t = map (\<lambda>p. CHR ''@'' # user (id' p)) ?batch"
            unfolding t using batch_text_tokens [OF ne] by blast
          from ch j ments t len toks show ?thesis by blast
        qed
        have "tag_loop E B D ?ps 0 (tr @ ?head) =
                Some (Inr (), (tr @ ?head) @ rounds B D ?ps 0 ?nb) \<or>
              (\<exists>n e. n < ?nb \<and>
                 sendMessage_outcome E ((tr @ ?head) @ rounds B D ?ps 0 n)
                   (trim (fst (tag_batch (batch_of B ?ps n)))) (snd (tag_batch (batch_of B ?ps n))) = Some e \<and>
                 tag_loop E B D ?ps 0 (tr @ ?head) =
                   Some (Inl e, (tr @ ?head) @ rounds B D ?ps 0 n @ [batch_send B ?ps n (Some e)]))"
          by (rule tag_loop_shape [OF assms])
        then show ?thesis
        proof
          assume loop: "tag_loop E B D ?ps 0 (tr @ ?head) =
                          Some (Inr (), (tr @ ?head) @ rounds B D ?ps 0 ?nb)"
          let ?new = "?head @ rounds B D ?ps 0 ?nb @ [Log (SuccessTagging (name ch))]"
          have "?run (Inr ()) ?new"
            using run by (simp add: loop)
          moreover have "\<forall>t ments r. SendMessage t ments r \<in> set ?new \<longrightarrow> ?ok t ments"
          proof (intro allI impI)
            fix t ments r
            assume "SendMessage t ments r \<in> set ?new"
            then have "SendMessage t ments r \<in> set (rounds B D ?ps 0 ?nb)" by simp
            then obtain j where "j < ?nb" "SendMessage t ments r = batch_send B ?ps j None"
              using rounds_sends by blast
            then show "?ok t ments"
              by (rule batch [rotated])
          qed
          ultimately show ?thesis by blast
        next
          assume "\<exists>n e. n < ?nb \<and>
                 sendMessage_outcome E ((tr @ ?head) @ rounds B D ?ps 0 n)
                   (trim (fst (tag_batch (batch_of B ?ps n)))) (snd (tag_batch (batch_of B ?ps n))) = Some e \<and>
                 tag_loop E B D ?ps 0 (tr @ ?head) =
                   Some (Inl e, (tr @ ?head) @ rounds B D ?ps 0 n @ [batch_send B ?ps n (Some e)])"
          then obtain n e where n: "n < ?nb" and loop: "tag_loop E B D ?ps 0 (tr @ ?head) =
                   Some (Inl e, (tr @ ?head) @ rounds B D ?ps 0 n @ [batch_send B ?ps n (Some e)])"
            by blast
          let ?r = "reply_outcome E (tr @ ?head @ rounds B D ?ps 0 n
                       @ [batch_send B ?ps n (Some e), LogError (ErrorTagAll e)]) tagall_failed"
          let ?new = "?head @ rounds B D ?ps 0 n
                       @ [batch_send B ?ps n (Some e), LogError (ErrorTagAll e), Reply tagall_failed ?r]"
          have "?run (case ?r of None \<Rightarrow> Inr () | Some e' \<Rightarrow> Inl e') ?new"
            using run by (simp add: loop reply_def Let_def)
          moreover have "\<forall>t ments r. SendMessage t ments r \<in> set ?new \<longrightarrow> ?ok t ments"
          proof (intro allI impI)
            fix t ments r
            assume "SendMessage t ments r \<in> set ?new"
            then have "SendMessage t ments r \<in> set (rounds B D ?ps 0 n) \<or>
                       SendMessage t ments r = batch_send B ?ps n (Some e)"
              by auto
            then obtain j r' where "j < ?nb" "SendMessage t ments r = batch_send B ?ps j r'"
              using rounds_sends n by (metis order_less_trans)
            then show "?ok t ments"
              by (rule batch [rotated])
          qed
          ultimately show ?thesis by blast
        qed
      qed
    qed
  qed
qed

text \<open>
  Three members in batches of two: the text of the first message is that of batch 0.
\<close>

theorem tagAll_batch_message_witness:
  "\<exists>k. k * 2 < length (participants (group_of 3)) \<and>
       ''@0 @1'' = trimEnd (join_space (map (\<lambda>p. CHR ''@'' # user (id' p))
                                           (batch_of 2 (participants (group_of 3)) k)))"
proof -
  have h: "(0::nat) < 2" by simp
  have ch: "getChat (quiet_env (group_of 3) [] []) = Inr (group_of 3)"
    by (simp add: quiet_env_def)
  have run: "tagAll (quiet_env (group_of 3) [] []) 2 1000 (message_of 0 ''$tagall!'') [] =
    Some (Inr (),
      [Log (CmdTagAll ''Alice'' ''g''), Log (InfoTagging 3 2),
       SendMessage ''@0 @1'' [MentionId ''0@c.us'', MentionId ''1@c.us''] None,
       Log (InfoSentBatch 1 2), Sleep 1000,
       SendMessage ''@2'' [MentionId ''2@c.us''] None,
       Log (InfoSentBatch 2 2), Sleep 1000, Log (SuccessTagging ''g'')])"
    by code_simp
  from tagAll_batch_message [OF h, where E = "quiet_env (group_of 3) [] []" and D = 1000
      and m = "message_of 0 ''$tagall!''" and tr = "[]"]
  obtain res new where
    "tagAll (quiet_env (group_of 3) [] []) 2 1000 (message_of 0 ''$tagall!'') [] = Some (res, [] @ new)"
    and inv: "\<And>t ments r. SendMessage t ments r \<in> set new \<Longrightarrow>
        \<exists>ch k. getChat (quiet_env (group_of 3) [] []) = Inr ch \<and> k * 2 < length (participants ch) \<and>
           ments = map (\<lambda>p. MentionId (serialized (id' p))) (batch_of 2 (participants ch) k) \<and>
           t = trimEnd (join_space (map (\<lambda>p. CHR ''@'' # user (id' p))
                                           (batch_of 2 (participants ch) k))) \<and>
           length ments = length (map (\<lambda>p. CHR ''@'' # user (id' p))
                                      (batch_of 2 (participants ch) k))"
    by blast
  with run have "SendMessage ''@0 @1'' [MentionId ''0@c.us'', MentionId ''1@c.us''] None \<in> set new"
    by simp
  from inv [OF this] show ?thesis
    unfolding ch by blast
qed

section \<open>Properties of the time-span parser and of \<open>$remind\<close>\<close>

lemma run_keeps_capture:
  "st' \<in> set (run r st) \<Longrightarrow> k \<notin> groups r \<Longrightarrow> snd st' k = snd st k"
proof (induction r st arbitrary: st' rule: run.induct)
  case (1 st)
  then show ?case by (simp add: run.simps)
next
  case (2 s g)
  then show ?case by (auto simp add: run.simps split: list.splits if_splits)
next
  case (3 s g)
  then show ?case by (auto simp add: run.simps split: list.splits if_splits)
next
  case (4 a s g)
  then show ?case by (auto simp add: run.simps split: list.splits if_splits)
next
  case (5 r1 r2 st)
  from "5.prems"(1) obtain st1 where st1: "st1 \<in> set (run r1 st)" "st' \<in> set (run r2 st1)"
    by (auto simp add: run.simps(5))
  from "5.prems"(2) have k: "k \<notin> groups r1" "k \<notin> groups r2" by simp_all
  have "snd st1 k = snd st k"
    using "5.IH"(1) [OF st1(1) k(1)] .
  moreover have "snd st' k = snd st1 k"
    using "5.IH"(2) [OF st1(1) st1(2) k(2)] .
  ultimately show ?case by simp
next
  case (6 r st)
  from "6.prems"(1) have "st' = st \<or>
      (\<exists>st1 \<in> set (run r st). length (fst st1) < length (fst st) \<and> st' \<in> set (run (Star r) st1))"
    unfolding run.simps(6) [of r st] by (auto split: if_splits)
  then show ?case
  proof
    assume "st' = st"
    then show ?thesis by simp
  next
    assume "\<exists>st1 \<in> set (run r st). length (fst st1) < length (fst st) \<and> st' \<in> set (run (Star r) st1)"
    then obtain st1 where st1: "st1 \<in> set (run r st)" "length (fst st1) < length (fst st)"
      "st' \<in> set (run (Star r) st1)" by blast
    from "6.prems"(2) have k: "k \<notin> groups r" by simp
    have "snd st1 k = snd st k"
      using "6.IH"(1) [OF st1(1) k] .
    moreover have "snd st' k = snd st1 k"
      using "6.IH"(2) [OF st1(1) st1(2) st1(3) "6.prems"(2)] .
    ultimately show ?thesis by simp
  qed
next
  case (7 r st)
  from "7.prems"(1) have "st' = st \<or> st' \<in> set (run r st)" by (auto simp add: run.simps(7))
  moreover from "7.prems"(2) have "k \<notin> groups r" by simp
  ultimately show ?case using "7.IH" [of st'] by auto
next
  case (8 j r s g)
  from "8.prems"(1) obtain s1 g1 where st1: "(s1, g1) \<in> set (run r (s, g))"
    "st' = (s1, g1(j := Some (take (length s - length s1) s)))"
    by (auto simp add: run.simps(8))
  from "8.prems"(2) have k: "k \<noteq> j" "k \<notin> groups r" by simp_all
  have "snd (s1, g1) k = snd (s, g) k"
    using "8.IH" [OF st1(1) k(2)] .
  with st1(2) k(1) show ?case by simp
qed

lemma run_star_digit:
  "st' \<in> set (run (Star Digit) (s, g)) \<Longrightarrow>
   \<exists>ds. s = ds @ fst st' \<and> (\<forall>c \<in> set ds. isDigit c)"
proof (induction s arbitrary: st')
  case Nil
  then show ?case by (simp add: run.simps)
next
  case (Cons c cs)
  show ?case
  proof (cases "isDigit c")
    case False
    with Cons.prems show ?thesis by (simp add: run.simps)
  next
    case True
    with Cons.prems have "st' = (c # cs, g) \<or> st' \<in> set (run (Star Digit) (cs, g))"
      unfolding run.simps(6) [of Digit "(c # cs, g)"] by (auto simp add: run.simps(2))
    then show ?thesis
    proof
      assume "st' = (c # cs, g)"
      then show ?thesis by simp
    next
      assume "st' \<in> set (run (Star Digit) (cs, g))"
      from Cons.IH [OF this] obtain ds where "cs = ds @ fst st'" "\<forall>c \<in> set ds. isDigit c"
        by blast
      with True have "c # cs = (c # ds) @ fst st' \<and> (\<forall>c \<in> set (c # ds). isDigit c)"
        by simp
      then show ?thesis by blast
    qed
  qed
qed

lemma run_plus_digit:
  assumes "st' \<in> set (run (Plus Digit) (s, g))"
  shows "\<exists>ds. s = ds @ fst st' \<and> ds \<noteq> [] \<and> (\<forall>c \<in> set ds. isDigit c)"
proof -
  from assms obtain c cs where s: "s = c # cs" "isDigit c" "st' \<in> set (run (Star Digit) (cs, g))"
    by (auto simp add: run.simps(5) run.simps(2) split: list.splits if_splits)
  from run_star_digit [OF s(3)] obtain ds where "cs = ds @ fst st'" "\<forall>c \<in> set ds. isDigit c"
    by blast
  with s have "s = (c # ds) @ fst st' \<and> c # ds \<noteq> [] \<and> (\<forall>c \<in> set (c # ds). isDigit c)"
    by simp
  then show ?thesis by blast
qed

lemma run_group_digits:
  assumes "st' \<in> set (run (Group k (Plus Digit)) (s, g))"
  shows "\<exists>ds. snd st' k = Some ds \<and> ds \<noteq> [] \<and> (\<forall>c \<in> set ds. isDigit c)"
proof -
  from assms obtain s1 g1 where st1: "(s1, g1) \<in> set (run (Plus Digit) (s, g))"
    "st' = (s1, g1(k := Some (take (length s - length s1) s)))"
    by (auto simp add: run.simps(8))
  from run_plus_digit [OF st1(1)] obtain ds where ds: "s = ds @ s1" "ds \<noteq> []" "\<forall>c \<in> set ds. isDigit c"
    by auto
  then have "take (length s - length s1) s = ds" by simp
  with st1(2) ds show ?thesis by simp
qed

lemma digit_not_space: "isDigit c \<Longrightarrow> \<not> isWhiteSpace c"
  by (auto simp add: isDigit_def isWhiteSpace_def)

lemma digit_not_sign: "isDigit c \<Longrightarrow> c \<noteq> CHR ''-'' \<and> c \<noteq> CHR ''+''"
  by (auto simp add: isDigit_def)

lemma digit_value_nonneg: "isDigit c \<Longrightarrow> 0 \<le> digit_value c"
  by (auto simp add: isDigit_def digit_value_def)

lemma foldl_decimal_nonneg:
  "\<forall>c \<in> set ds. isDigit c \<Longrightarrow> 0 \<le> n \<Longrightarrow>
   0 \<le> foldl (\<lambda>n c. 10 * n + digit_value c) n ds"
proof (induction ds arbitrary: n)
  case Nil
  then show ?case by simp
next
  case (Cons c ds)
  from Cons.prems have "0 \<le> 10 * n + digit_value c"
    using digit_value_nonneg [of c] by simp
  with Cons show ?case by simp
qed

lemma decimal_nonneg: "\<forall>c \<in> set ds. isDigit c \<Longrightarrow> 0 \<le> decimal ds"
  unfolding decimal_def by (rule foldl_decimal_nonneg) simp_all

lemma round_double_nonneg: "0 \<le> n \<Longrightarrow> 0 \<le> round_double n"
  unfolding round_double_def Let_def
  by (simp add: pos_imp_zdiv_nonneg_iff)

lemma to_double_small: "0 \<le> i \<Longrightarrow> i < 2 ^ 53 \<Longrightarrow> to_double i = Fin i"
  by (simp add: to_double_def round_double_def)

lemma to_double_limit: "to_double (2 ^ 53) = Fin (2 ^ 53)"
  by code_simp

lemma to_double_exact:
  assumes "0 \<le> i" and "i \<le> 2 ^ 53"
  shows "to_double i = Fin i"
proof (cases "i = 2 ^ 53")
  case True
  then show ?thesis by (simp only: to_double_limit)
next
  case False
  with assms(2) have "i < 2 ^ 53" by simp
  with assms(1) show ?thesis by (rule to_double_small)
qed

lemma to_double_nonneg:
  assumes "0 \<le> i"
  shows "to_double i = PInf \<or> (\<exists>v \<ge> 0. to_double i = Fin v)"
proof -
  have "0 \<le> round_double \<bar>i\<bar>"
    by (rule round_double_nonneg) simp
  with assms show ?thesis
    by (simp add: to_double_def Let_def)
qed

lemma parseInt10_digits:
  assumes "ds \<noteq> []" and "\<forall>c \<in> set ds. isDigit c"
  shows "parseInt10 (Some ds) = to_double (decimal ds)"
proof -
  from assms obtain c cs where ds: "ds = c # cs" "isDigit c"
    by (cases ds) auto
  have t: "trimStart (c # cs) = c # cs"
    using ds digit_not_space by (simp add: trimStart_def)
  have tw: "takeWhile isDigit cs = cs"
    using assms(2) ds(1) by (simp add: takeWhile_eq_all_conv)
  show ?thesis
    unfolding ds(1) using ds(2) digit_not_sign [of c]
    by (simp add: parseInt10_def t tw Let_def)
qed

lemma run_star_digit_first:
  assumes "\<forall>c \<in> set ds. isDigit c" and "rest = [] \<or> \<not> isDigit (hd rest)"
  shows "\<exists>zs. run (Star Digit) (ds @ rest, g) = (rest, g) # zs"
  using assms(1)
proof (induction ds)
  case Nil
  have "run Digit (rest, g) = []"
    using assms(2) by (cases rest) (simp_all add: run.simps(2))
  then show ?case by (simp add: run.simps(6))
next
  case (Cons d ds)
  then obtain zs where "run (Star Digit) (ds @ rest, g) = (rest, g) # zs"
    by auto
  moreover from Cons.prems have "run Digit ((d # ds) @ rest, g) = [(ds @ rest, g)]"
    by (simp add: run.simps(2))
  ultimately show ?case
    by (simp add: run.simps(6) [of Digit "(d # ds @ rest, g)"])
qed

lemma run_star_space_first:
  assumes "\<forall>c \<in> set ws. isWhiteSpace c" and "rest = [] \<or> \<not> isWhiteSpace (hd rest)"
  shows "\<exists>zs. run (Star Space) (ws @ rest, g) = (rest, g) # zs"
  using assms(1)
proof (induction ws)
  case Nil
  have "run Space (rest, g) = []"
    using assms(2) by (cases rest) (simp_all add: run.simps(3))
  then show ?case by (simp add: run.simps(6))
next
  case (Cons w ws)
  then obtain zs where "run (Star Space) (ws @ rest, g) = (rest, g) # zs"
    by auto
  moreover from Cons.prems have "run Space ((w # ws) @ rest, g) = [(ws @ rest, g)]"
    by (simp add: run.simps(3))
  ultimately show ?case
    by (simp add: run.simps(6) [of Space "(w # ws @ rest, g)"])
qed

lemma run_cat_first:
  assumes "run r1 st = x # xs" and "run r2 x = y # ys"
  shows "\<exists>zs. run (Cat r1 r2) st = y # zs"
  using assms by (simp add: run.simps(5))

lemma run_group_digits_first:
  assumes "ds \<noteq> []" and "\<forall>c \<in> set ds. isDigit c" and "rest = [] \<or> \<not> isDigit (hd rest)"
  shows "\<exists>zs. run (Group k (Plus Digit)) (ds @ rest, g) = (rest, g(k := Some ds)) # zs"
proof -
  from assms(1,2) obtain d ds' where ds: "ds = d # ds'" "isDigit d" "\<forall>c \<in> set ds'. isDigit c"
    by (cases ds) auto
  from run_star_digit_first [OF ds(3) assms(3)]
  obtain zs where "run (Star Digit) (ds' @ rest, g) = (rest, g) # zs"
    by blast
  moreover have "run Digit (ds @ rest, g) = [(ds' @ rest, g)]"
    using ds by (simp add: run.simps(2))
  ultimately have "run (Plus Digit) (ds @ rest, g) = (rest, g) # zs"
    by (simp add: run.simps(5))
  then show ?thesis
    by (simp add: run.simps(8))
qed

lemma run_opts_nonempty: "run (Cat (Opt a) (Opt b)) st \<noteq> []"
proof -
  obtain x xs where x: "run (Opt a) st = x # xs"
    by (cases "run (Opt a) st") (simp_all add: run.simps(7))
  obtain y ys where y: "run (Opt b) x = y # ys"
    by (cases "run (Opt b) x") (simp_all add: run.simps(7))
  from run_cat_first [OF x y] show ?thesis by auto
qed

text \<open>
  A unit pattern at a place where a number with its unit letter starts: the first way
  it matches captures the whole number.
\<close>

lemma run_unit_first:
  assumes ds: "ds \<noteq> []" "\<forall>c \<in> set ds. isDigit c"
    and ws: "\<forall>c \<in> set ws. isWhiteSpace c"
    and u: "\<not> isDigit u" "\<not> isWhiteSpace u"
    and R: "R = Cat (Opt a) (Opt b)" "k \<notin> groups R"
  shows "\<exists>m ms. run (Cat (Group k (Plus Digit)) (Cat (Star Space) (Cat (Lit u) R)))
                    (ds @ ws @ u # rest, g) = m # ms \<and> snd m k = Some ds"
proof -
  have nd: "ws @ u # rest = [] \<or> \<not> isDigit (hd (ws @ u # rest))"
    using ws u(1) digit_not_space by (cases ws) auto
  from run_group_digits_first [OF ds nd]
  obtain zs1 where 1: "run (Group k (Plus Digit)) (ds @ ws @ u # rest, g) =
      (ws @ u # rest, g(k := Some ds)) # zs1"
    by blast
  have "u # rest = [] \<or> \<not> isWhiteSpace (hd (u # rest))"
    using u(2) by simp
  from run_star_space_first [OF ws this]
  obtain zs2 where 2: "run (Star Space) (ws @ u # rest, g(k := Some ds)) =
      (u # rest, g(k := Some ds)) # zs2"
    by blast
  have 3: "run (Lit u) (u # rest, g(k := Some ds)) = [(rest, g(k := Some ds))]"
    by (simp add: run.simps(4))
  obtain m ms where 4: "run R (rest, g(k := Some ds)) = m # ms"
    using run_opts_nonempty [of a b] R(1) by (cases "run R (rest, g(k := Some ds))") auto
  then have "m \<in> set (run R (rest, g(k := Some ds)))" by simp
  from run_keeps_capture [OF this R(2)] have m: "snd m k = Some ds" by simp
  from run_cat_first [OF 3 4] obtain zs3 where
    "run (Cat (Lit u) R) (u # rest, g(k := Some ds)) = m # zs3" by blast
  from run_cat_first [OF 2 this] obtain zs4 where
    "run (Cat (Star Space) (Cat (Lit u) R)) (ws @ u # rest, g(k := Some ds)) = m # zs4" by blast
  from run_cat_first [OF 1 this] m show ?thesis by blast
qed

lemma run_unit_skip:
  assumes "s = [] \<or> \<not> isDigit (hd s)"
  shows "run (Cat (Group k (Plus Digit)) R) (s, g) = []"
proof -
  have "run Digit (s, g) = []"
    using assms by (cases s) (simp_all add: run.simps(2))
  then show ?thesis by (simp add: run.simps(5) run.simps(8))
qed

lemma run_star_space:
  "st' \<in> set (run (Star Space) (s, g)) \<Longrightarrow>
   \<exists>ws. s = ws @ fst st' \<and> (\<forall>c \<in> set ws. isWhiteSpace c)"
proof (induction s arbitrary: st')
  case Nil
  then show ?case by (simp add: run.simps)
next
  case (Cons c cs)
  show ?case
  proof (cases "isWhiteSpace c")
    case False
    with Cons.prems show ?thesis by (simp add: run.simps)
  next
    case True
    with Cons.prems have "st' = (c # cs, g) \<or> st' \<in> set (run (Star Space) (cs, g))"
      unfolding run.simps(6) [of Space "(c # cs, g)"] by (auto simp add: run.simps(3))
    then show ?thesis
    proof
      assume "st' = (c # cs, g)"
      then show ?thesis by simp
    next
      assume "st' \<in> set (run (Star Space) (cs, g))"
      from Cons.IH [OF this] obtain ws where "cs = ws @ fst st'" "\<forall>c \<in> set ws. isWhiteSpace c"
        by blast
      with True have "c # cs = (c # ws) @ fst st' \<and> (\<forall>c \<in> set (c # ws). isWhiteSpace c)"
        by simp
      then show ?thesis by blast
    qed
  qed
qed

lemma run_group_rest:
  assumes "st' \<in> set (run (Group k (Plus Digit)) (s, g))"
  shows "\<exists>ds. s = ds @ fst st' \<and> ds \<noteq> [] \<and> (\<forall>c \<in> set ds. isDigit c)"
proof -
  from assms obtain s1 g1 where st1: "(s1, g1) \<in> set (run (Plus Digit) (s, g))" "fst st' = s1"
    by (auto simp add: run.simps(8))
  from run_plus_digit [OF st1(1)] st1(2) show ?thesis by simp
qed

text \<open>
  Every way a unit pattern matches at the start of a text reads a phrase there: the
  digits, white space or none, the letter.
\<close>

lemma run_unit_sound:
  assumes "st' \<in> set (run (Cat (Group k (Plus Digit)) (Cat (Star Space) (Cat (Lit u) R))) (s, g))"
  shows "\<exists>ds ws rest. s = ds @ ws @ u # rest \<and> ds \<noteq> [] \<and>
           (\<forall>c \<in> set ds. isDigit c) \<and> (\<forall>c \<in> set ws. isWhiteSpace c)"
proof -
  from assms obtain st1 where st1: "st1 \<in> set (run (Group k (Plus Digit)) (s, g))"
    "st' \<in> set (run (Cat (Star Space) (Cat (Lit u) R)) st1)"
    by (auto simp add: run.simps(5))
  from st1(2) obtain st2 where st2: "st2 \<in> set (run (Star Space) st1)"
    "st' \<in> set (run (Cat (Lit u) R) st2)"
    by (auto simp add: run.simps(5))
  from st2(2) obtain st3 where st3: "st3 \<in> set (run (Lit u) st2)"
    by (auto simp add: run.simps(5))
  from run_group_rest [OF st1(1)] obtain ds
    where ds: "s = ds @ fst st1" "ds \<noteq> []" "\<forall>c \<in> set ds. isDigit c"
    by blast
  from st2(1) have "st2 \<in> set (run (Star Space) (fst st1, snd st1))" by simp
  from run_star_space [OF this] obtain ws
    where ws: "fst st1 = ws @ fst st2" "\<forall>c \<in> set ws. isWhiteSpace c"
    by blast
  obtain s2 g2 where p2: "st2 = (s2, g2)"
    by (cases st2)
  from st3 obtain rest where "fst st2 = u # rest"
    unfolding p2 by (auto simp add: run.simps(4) split: list.splits if_splits)
  with ds ws have "s = ds @ ws @ u # rest" by simp
  with ds ws show ?thesis by blast
qed

lemma space_not_digit: "isWhiteSpace c \<Longrightarrow> \<not> isDigit c"
  using digit_not_space by blast

lemma phrase_hereI:
  assumes "ds \<noteq> []" and "\<forall>c \<in> set ds. isDigit c" and "\<forall>c \<in> set ws. isWhiteSpace c"
    and "\<not> isDigit u" and "\<not> isWhiteSpace u"
  shows "phrase_here u (ds @ ws @ u # rest) = Some ds"
proof -
  have hd: "takeWhile isDigit (ws @ u # rest) = []" "dropWhile isDigit (ws @ u # rest) = ws @ u # rest"
    using assms(3,4) space_not_digit by (cases ws; simp)+
  have "takeWhile isDigit (ds @ ws @ u # rest) = ds"
    using assms(2) hd(1) by (simp add: takeWhile_append2)
  moreover have "dropWhile isDigit (ds @ ws @ u # rest) = ws @ u # rest"
    using assms(2) hd(2) by (simp add: dropWhile_append2)
  moreover have "dropWhile isWhiteSpace (ws @ u # rest) = u # rest"
    using assms(3,5) by (simp add: dropWhile_append2)
  ultimately show ?thesis
    using assms(1) by (simp add: phrase_here_def)
qed

lemma phrase_hereD:
  assumes "phrase_here u s = Some ds"
  shows "\<exists>ws rest. s = ds @ ws @ u # rest \<and> ds \<noteq> [] \<and>
           (\<forall>c \<in> set ds. isDigit c) \<and> (\<forall>c \<in> set ws. isWhiteSpace c)"
proof -
  let ?t = "dropWhile isDigit s"
  from assms have ds: "ds = takeWhile isDigit s" "ds \<noteq> []"
    by (auto simp add: phrase_here_def Let_def split: if_splits)
  from assms obtain rest where rest: "dropWhile isWhiteSpace ?t = u # rest"
    by (auto simp add: phrase_here_def Let_def split: if_splits list.splits)
  have "s = takeWhile isDigit s @ ?t"
    by simp
  moreover have "?t = takeWhile isWhiteSpace ?t @ dropWhile isWhiteSpace ?t"
    by simp
  ultimately have "s = ds @ takeWhile isWhiteSpace ?t @ u # rest"
    using ds(1) rest by simp
  moreover have "\<forall>c \<in> set ds. isDigit c"
    unfolding ds(1) by (auto dest: set_takeWhileD)
  moreover have "\<forall>c \<in> set (takeWhile isWhiteSpace ?t). isWhiteSpace c"
    by (auto dest: set_takeWhileD)
  ultimately show ?thesis using ds(2) by blast
qed

lemma run_unit_none:
  assumes "phrase_here u s = None" and "\<not> isDigit u" and "\<not> isWhiteSpace u"
  shows "run (Cat (Group k (Plus Digit)) (Cat (Star Space) (Cat (Lit u) R))) (s, g) = []"
proof (rule ccontr)
  assume "run (Cat (Group k (Plus Digit)) (Cat (Star Space) (Cat (Lit u) R))) (s, g) \<noteq> []"
  then obtain st' where
    "st' \<in> set (run (Cat (Group k (Plus Digit)) (Cat (Star Space) (Cat (Lit u) R))) (s, g))"
    by (cases "run (Cat (Group k (Plus Digit)) (Cat (Star Space) (Cat (Lit u) R))) (s, g)") auto
  from run_unit_sound [OF this] obtain ds ws rest where
    "s = ds @ ws @ u # rest" "ds \<noteq> []" "\<forall>c \<in> set ds. isDigit c" "\<forall>c \<in> set ws. isWhiteSpace c"
    by blast
  then have "phrase_here u s = Some ds"
    using phrase_hereI assms(2,3) by blast
  with assms(1) show False by simp
qed

lemma run_unit_some:
  assumes "phrase_here u s = Some ds" and "\<not> isDigit u" and "\<not> isWhiteSpace u"
    and "R = Cat (Opt a) (Opt b)" and "k \<notin> groups R"
  shows "\<exists>m ms. run (Cat (Group k (Plus Digit)) (Cat (Star Space) (Cat (Lit u) R))) (s, g) = m # ms \<and>
           snd m k = Some ds"
proof -
  from phrase_hereD [OF assms(1)] obtain ws rest where
    s: "s = ds @ ws @ u # rest" and ds: "ds \<noteq> []" "\<forall>c \<in> set ds. isDigit c"
    and ws: "\<forall>c \<in> set ws. isWhiteSpace c"
    by blast
  show ?thesis
    unfolding s by (rule run_unit_first [OF ds ws assms(2,3,4,5)])
qed

lemma first_phrase_digits:
  "first_phrase u s = Some ds \<Longrightarrow> ds \<noteq> [] \<and> (\<forall>c \<in> set ds. isDigit c) \<and> u \<in> set s"
proof (induction s)
  case Nil
  then show ?case by simp
next
  case (Cons c cs)
  show ?case
  proof (cases "phrase_here u (c # cs)")
    case None
    with Cons show ?thesis by simp
  next
    case (Some d)
    with Cons.prems have "d = ds" by simp
    with phrase_hereD [OF Some] obtain ws rest where
      e: "c # cs = ds @ ws @ u # rest" and ds: "ds \<noteq> []" "\<forall>c \<in> set ds. isDigit c"
      by blast
    have "u \<in> set (ds @ ws @ u # rest)" by simp
    then have "u \<in> set (c # cs)" by (simp only: e)
    with ds show ?thesis by blast
  qed
qed

text \<open>
  The reading of a unit pattern by \<open>match\<close> is the first phrase of the text: the capture
  of the match is the run of digits of the first phrase, and there is no match when
  there is no phrase.
\<close>

lemma re_match_scan:
  assumes "\<not> isDigit u" and "\<not> isWhiteSpace u"
    and "r = Cat (Group k (Plus Digit)) (Cat (Star Space) (Cat (Lit u) (Cat (Opt a) (Opt b))))"
    and "k \<notin> groups a" and "k \<notin> groups b"
  shows "(re_match r s = None \<and> first_phrase u s = None) \<or>
         (\<exists>g ds. re_match r s = Some g \<and> g k = Some ds \<and> first_phrase u s = Some ds)"
proof (induction s)
  case Nil
  have "phrase_here u [] = None"
    by (simp add: phrase_here_def)
  then have "run r ([], \<lambda>_. None) = []"
    unfolding assms(3) using assms(1,2) by (rule run_unit_none)
  then show ?case by simp
next
  case (Cons c cs)
  have gr: "k \<notin> groups (Cat (Opt a) (Opt b))"
    using assms(4,5) by simp
  show ?case
  proof (cases "phrase_here u (c # cs)")
    case None
    then have "run r (c # cs, \<lambda>_. None) = []"
      unfolding assms(3) using assms(1,2) by (rule run_unit_none)
    with None Cons show ?thesis by simp
  next
    case (Some ds)
    from run_unit_some [OF Some assms(1,2) refl gr]
    obtain m ms where "run r (c # cs, \<lambda>_. None) = m # ms" "snd m k = Some ds"
      unfolding assms(3) by blast
    with Some show ?thesis by simp
  qed
qed

lemma to_double_0: "to_double 0 = Fin 0"
  by (simp add: to_double_small)

lemma time_part_scan:
  assumes "\<not> isDigit u" and "\<not> isWhiteSpace u"
    and "r = Cat (Group 1 (Plus Digit)) (Cat (Star Space) (Cat (Lit u) (Cat (Opt a) (Opt b))))"
    and "1 \<notin> groups a" and "1 \<notin> groups b"
  shows "time_part r s = phrase_number (first_phrase u s)"
  using re_match_scan [OF assms, of s]
proof
  assume "re_match r s = None \<and> first_phrase u s = None"
  then show ?thesis
    by (simp add: time_part_def phrase_number_def phrase_value_def to_double_0)
next
  assume "\<exists>g ds. re_match r s = Some g \<and> g 1 = Some ds \<and> first_phrase u s = Some ds"
  then obtain g ds where m: "re_match r s = Some g" "g 1 = Some ds" "first_phrase u s = Some ds"
    by blast
  from first_phrase_digits [OF m(3)] have "parseInt10 (Some ds) = to_double (decimal ds)"
    using parseInt10_digits by blast
  with m show ?thesis
    by (simp add: time_part_def phrase_number_def phrase_value_def)
qed

lemma hours_scan: "hours_of s = phrase_number (first_phrase CHR ''h'' s)"
  unfolding hours_of_def
  by (rule time_part_scan [where a = "Group 2 (Cat (Lit CHR ''o'') (Cat (Lit CHR ''u'') (Lit CHR ''r'')))"
        and b = "Lit CHR ''s''"])
     (simp_all add: hours_re_def isDigit_def isWhiteSpace_def)

lemma minutes_scan: "minutes_of s = phrase_number (first_phrase CHR ''m'' s)"
  unfolding minutes_of_def
  by (rule time_part_scan [where a = "Group 2 (Cat (Lit CHR ''i'') (Cat (Lit CHR ''n'')
        (Cat (Lit CHR ''u'') (Cat (Lit CHR ''t'') (Lit CHR ''e'')))))" and b = "Lit CHR ''s''"])
     (simp_all add: minutes_re_def isDigit_def isWhiteSpace_def)

lemma seconds_scan: "seconds_of s = phrase_number (first_phrase CHR ''s'' s)"
  unfolding seconds_of_def
  by (rule time_part_scan [where a = "Group 2 (Cat (Lit CHR ''e'') (Cat (Lit CHR ''c'')
        (Cat (Lit CHR ''o'') (Cat (Lit CHR ''n'') (Lit CHR ''d'')))))" and b = "Lit CHR ''s''"])
     (simp_all add: seconds_re_def isDigit_def isWhiteSpace_def)

text \<open>What follows the first phrase of a text does not change it.\<close>

lemma phrase_here_append:
  assumes "phrase_here u s = Some ds" and "\<not> isDigit u" and "\<not> isWhiteSpace u"
  shows "phrase_here u (s @ t) = Some ds"
proof -
  from phrase_hereD [OF assms(1)] obtain ws rest where
    s: "s = ds @ ws @ u # rest" and ds: "ds \<noteq> []" "\<forall>c \<in> set ds. isDigit c"
    and ws: "\<forall>c \<in> set ws. isWhiteSpace c"
    by blast
  have "phrase_here u (ds @ ws @ u # (rest @ t)) = Some ds"
    by (rule phrase_hereI [OF ds ws assms(2,3)])
  then show ?thesis by (simp add: s)
qed

lemma phrase_here_append_none:
  assumes "phrase_here u s = None" and "u \<in> set s" and "\<not> isDigit u" and "\<not> isWhiteSpace u"
  shows "phrase_here u (s @ t) = None"
proof (cases "phrase_here u (s @ t)")
  case None
  then show ?thesis .
next
  case (Some d)
  from phrase_hereD [OF Some] obtain ws rest where
    st: "s @ t = (d @ ws) @ u # rest" and d: "d \<noteq> []" "\<forall>c \<in> set d. isDigit c"
    and ws: "\<forall>c \<in> set ws. isWhiteSpace c"
    by auto
  from st obtain us where "(s = (d @ ws) @ us \<and> us @ t = u # rest) \<or>
      (s @ us = d @ ws \<and> t = us @ u # rest)"
    unfolding append_eq_append_conv2 by blast
  then show ?thesis
  proof
    assume a: "s = (d @ ws) @ us \<and> us @ t = u # rest"
    show ?thesis
    proof (cases us)
      case Nil
      with a have "set s = set d \<union> set ws" by auto
      with assms(2) d(2) ws assms(3,4) show ?thesis by blast
    next
      case (Cons x xs)
      with a have "s = d @ ws @ u # xs" by simp
      then have "phrase_here u s = Some d"
        using phrase_hereI [OF d ws assms(3,4)] by simp
      with assms(1) show ?thesis by simp
    qed
  next
    assume "s @ us = d @ ws \<and> t = us @ u # rest"
    then have "set s \<subseteq> set d \<union> set ws"
      by (metis set_append Un_upper1)
    with assms(2) d(2) ws assms(3,4) show ?thesis by blast
  qed
qed

lemma first_phrase_append:
  assumes "\<not> isDigit u" and "\<not> isWhiteSpace u"
  shows "first_phrase u s = Some ds \<Longrightarrow> first_phrase u (s @ t) = Some ds"
proof (induction s)
  case Nil
  then show ?case by simp
next
  case (Cons c cs)
  show ?case
  proof (cases "phrase_here u (c # cs)")
    case (Some d)
    with Cons.prems have "d = ds" by simp
    with phrase_here_append [OF Some assms, of t] show ?thesis by simp
  next
    case None
    with Cons.prems have rest: "first_phrase u cs = Some ds" by simp
    then have "u \<in> set (c # cs)"
      using first_phrase_digits by fastforce
    from phrase_here_append_none [OF None this assms, of t] Cons.IH [OF rest]
    show ?thesis by simp
  qed
qed

lemma remind_texts_differ: "remind_failed \<noteq> remind_format"
  by (simp add: remind_failed_def remind_format_def)

lemma handleRemind_bad_format:
  assumes "getContact E = Inr c" and "getChat E = Inr ch"
    and "num_le (totalSeconds (toLowerCase (body msg))) (Fin 0)"
  shows "handleRemind E msg tr =
     (case reply_outcome E (tr @ [Log (CmdRemind (pushname c))]) remind_format of
        None \<Rightarrow> (Inr (), tr @ [Log (CmdRemind (pushname c)), Reply remind_format None])
      | Some e \<Rightarrow>
          reply E remind_failed
            (tr @ [Log (CmdRemind (pushname c)), Reply remind_format (Some e),
                   LogError (ErrorRemind e)]))"
proof -
  have "remind_try E msg tr = reply E remind_format (tr @ [Log (CmdRemind (pushname c))])"
    unfolding remind_try_def Let_def by (simp only: assms sum.case if_True)
  then show ?thesis
    by (cases "reply_outcome E (tr @ [Log (CmdRemind (pushname c))]) remind_format")
       (simp_all add: handleRemind_def reply_def Let_def)
qed

text \<open>
  The scanner returns the phrase of the leftmost place of the text where one starts.
\<close>

lemma first_phrase_leftmost:
  "phrase_here u (drop i s) = Some ds \<Longrightarrow> (\<forall>j < i. phrase_here u (drop j s) = None) \<Longrightarrow>
   first_phrase u s = Some ds"
proof (induction s arbitrary: i)
  case Nil
  then show ?case by (simp add: phrase_here_def)
next
  case (Cons c cs)
  show ?case
  proof (cases i)
    case 0
    with Cons.prems(1) show ?thesis by simp
  next
    case (Suc k)
    with Cons.prems(2) have "phrase_here u (drop 0 (c # cs)) = None" by blast
    then have none: "phrase_here u (c # cs) = None" by simp
    have here: "phrase_here u (drop k cs) = Some ds"
      using Cons.prems(1) Suc by simp
    have "\<forall>j < k. phrase_here u (drop j cs) = None"
    proof (intro allI impI)
      fix j assume "j < k"
      then have "Suc j < i" using Suc by simp
      with Cons.prems(2) have "phrase_here u (drop (Suc j) (c # cs)) = None" by blast
      then show "phrase_here u (drop j cs) = None" by simp
    qed
    from Cons.IH [OF here this] none show ?thesis by simp
  qed
qed

lemma phrase_value_nonneg: "0 \<le> phrase_value (first_phrase u s)"
proof (cases "first_phrase u s")
  case None
  then show ?thesis by (simp add: phrase_value_def)
next
  case (Some ds)
  with first_phrase_digits [OF Some] show ?thesis
    by (simp add: phrase_value_def decimal_nonneg)
qed

lemma to_double_not_negative: "0 \<le> i \<Longrightarrow> not_negative (to_double i)"
  using to_double_nonneg [of i] by auto

lemma num_mul_not_negative:
  assumes "not_negative a" and "0 < c"
  shows "not_negative (num_mul a (Fin c))"
proof (cases a)
  case (Fin v)
  with assms have "0 \<le> v * c" by simp
  with Fin show ?thesis by (simp add: to_double_not_negative)
next
  case PInf
  with assms(2) show ?thesis by (simp add: num_sign_def)
qed (use assms in simp_all)

lemma num_add_not_negative:
  assumes "not_negative a" and "not_negative b"
  shows "not_negative (num_add a b)"
  using assms by (cases a; cases b) (simp_all add: to_double_not_negative)

lemma totalSeconds_not_negative: "not_negative (totalSeconds command)"
  unfolding totalSeconds_def hours_scan minutes_scan seconds_scan phrase_number_def
  by (intro num_add_not_negative num_mul_not_negative to_double_not_negative phrase_value_nonneg)
     simp_all

lemma total_exact:
  assumes "0 \<le> H" "0 \<le> M" "0 \<le> S" and "H * 3600 + M * 60 + S \<le> 2 ^ 53"
  shows "num_add (num_add (num_mul (to_double H) (Fin 3600)) (num_mul (to_double M) (Fin 60)))
           (to_double S) = Fin (H * 3600 + M * 60 + S)"
proof -
  have b: "H \<le> 2 ^ 53" "M \<le> 2 ^ 53" "S \<le> 2 ^ 53" "H * 3600 \<le> 2 ^ 53" "M * 60 \<le> 2 ^ 53"
    "H * 3600 + M * 60 \<le> 2 ^ 53"
    using assms by linarith+
  have "to_double H = Fin H" "to_double M = Fin M" "to_double S = Fin S"
    using assms(1,2,3) b(1,2,3) by (simp_all only: to_double_exact)
  moreover have "to_double (H * 3600) = Fin (H * 3600)" "to_double (M * 60) = Fin (M * 60)"
    using assms(1,2) b(4,5) by (simp_all add: to_double_exact)
  moreover have "to_double (H * 3600 + M * 60) = Fin (H * 3600 + M * 60)"
    using assms(1,2) b(6) by (simp add: to_double_exact)
  moreover have "to_double (H * 3600 + M * 60 + S) = Fin (H * 3600 + M * 60 + S)"
    using assms by (simp add: to_double_exact)
  ultimately show ?thesis by simp
qed

lemma totalSeconds_exact:
  assumes "phrase_value (first_phrase CHR ''h'' command) * 3600 +
           phrase_value (first_phrase CHR ''m'' command) * 60 +
           phrase_value (first_phrase CHR ''s'' command) \<le> 2 ^ 53"
  shows "totalSeconds command =
         Fin (phrase_value (first_phrase CHR ''h'' command) * 3600 +
              phrase_value (first_phrase CHR ''m'' command) * 60 +
              phrase_value (first_phrase CHR ''s'' command))"
  unfolding totalSeconds_def hours_scan minutes_scan seconds_scan phrase_number_def
  by (rule total_exact [OF phrase_value_nonneg phrase_value_nonneg phrase_value_nonneg assms])

lemma totalSeconds_no_phrase:
  assumes "first_phrase CHR ''h'' command = None" "first_phrase CHR ''m'' command = None"
    "first_phrase CHR ''s'' command = None"
  shows "totalSeconds command = Fin 0"
  unfolding totalSeconds_def hours_scan minutes_scan seconds_scan phrase_number_def
  by (simp add: assms phrase_value_def to_double_0)

lemma unit_letters:
  "\<not> isDigit CHR ''h''" "\<not> isWhiteSpace CHR ''h''"
  "\<not> isDigit CHR ''m''" "\<not> isWhiteSpace CHR ''m''"
  "\<not> isDigit CHR ''s''" "\<not> isWhiteSpace CHR ''s''"
  by (simp_all add: isDigit_def isWhiteSpace_def)

lemma scan_append:
  assumes "\<not> isDigit u" "\<not> isWhiteSpace u" and "first_phrase u s \<noteq> None"
  shows "phrase_number (first_phrase u (s @ t)) = phrase_number (first_phrase u s)"
proof -
  from assms(3) obtain ds where ds: "first_phrase u s = Some ds" by auto
  from first_phrase_append [OF assms(1,2) ds, of t] ds show ?thesis by simp
qed

lemma scan_leftmost:
  assumes "phrase_here u (drop i s) = Some ds" and "\<forall>j < i. phrase_here u (drop j s) = None"
  shows "phrase_number (first_phrase u s) = to_double (decimal ds)"
  using first_phrase_leftmost [OF assms] by (simp add: phrase_number_def phrase_value_def)

text \<open>
  Claim C4 as stated fails for long numbers: the parts and their sum are doubles, and
  beyond \<open>2 ^ 53\<close> a double does not hold every integer. For the text below the hours
  are 2501999792984 and the seconds 1, and the sum the handler computes is
  9007199254742400, one less than hours times 3600 plus seconds.
\<close>

theorem remind_time_span_counterexample:
  "hours_of ''remind in 2501999792984h 1s'' = Fin 2501999792984 \<and>
   minutes_of ''remind in 2501999792984h 1s'' = Fin 0 \<and>
   seconds_of ''remind in 2501999792984h 1s'' = Fin 1 \<and>
   totalSeconds ''remind in 2501999792984h 1s'' = Fin 9007199254742400 \<and>
   totalSeconds ''remind in 2501999792984h 1s'' \<noteq> Fin (2501999792984 * 3600 + 0 * 60 + 1)"
  by code_simp

text \<open>
  Claim C4, as amended. Each of the three unit patterns is matched on the whole text on
  its own, and gives the double nearest to the number of the leftmost phrase of its
  unit, zero when the text has no such phrase. The total is hours times 3600 plus
  minutes times 60 plus seconds in double arithmetic, each product and each sum rounded;
  it is never negative and never \<open>NaN\<close>, and it is the exact integer whenever that
  integer is at most \<open>2 ^ 53\<close>. The two texts of the claim give 5400 and 45 seconds, and
  a text without any phrase gives zero. When contact and chat resolve and the total is
  not positive, the handler sets no timer and sends nothing to the chat, and exactly one
  of its replies, the first, carries the format-not-understood text; when that reply
  resolves it is the only reply and the handler returns normally.
\<close>

theorem remind_time_span:
  "hours_of command = phrase_number (first_phrase CHR ''h'' command) \<and>
   minutes_of command = phrase_number (first_phrase CHR ''m'' command) \<and>
   seconds_of command = phrase_number (first_phrase CHR ''s'' command) \<and>
   totalSeconds command =
     num_add (num_add (num_mul (hours_of command) (Fin 3600))
                      (num_mul (minutes_of command) (Fin 60)))
             (seconds_of command) \<and>
   not_negative (totalSeconds command) \<and>
   (phrase_value (first_phrase CHR ''h'' command) * 3600 +
    phrase_value (first_phrase CHR ''m'' command) * 60 +
    phrase_value (first_phrase CHR ''s'' command) \<le> 2 ^ 53 \<longrightarrow>
      totalSeconds command =
        Fin (phrase_value (first_phrase CHR ''h'' command) * 3600 +
             phrase_value (first_phrase CHR ''m'' command) * 60 +
             phrase_value (first_phrase CHR ''s'' command))) \<and>
   totalSeconds ''remind in 1 hour 30 minutes'' = Fin 5400 \<and>
   totalSeconds ''remind in 45s'' = Fin 45 \<and>
   (first_phrase CHR ''h'' command = None \<and> first_phrase CHR ''m'' command = None \<and>
    first_phrase CHR ''s'' command = None \<longrightarrow>
      totalSeconds command = Fin 0 \<and> num_le (totalSeconds command) (Fin 0)) \<and>
   (getContact E = Inr c \<and> getChat E = Inr ch \<and>
    num_le (totalSeconds (toLowerCase (body msg))) (Fin 0) \<longrightarrow>
      (\<exists>res new. handleRemind E msg tr = (res, tr @ new) \<and>
         filter is_timer new = [] \<and> filter is_send new = [] \<and>
         filter (\<lambda>t. t = remind_format) (reply_texts new) = [remind_format] \<and>
         take 1 (reply_texts new) = [remind_format] \<and>
         (reply_outcome E (tr @ [Log (CmdRemind (pushname c))]) remind_format = None \<longrightarrow>
            res = Inr () \<and> reply_texts new = [remind_format])))"
proof -
  have a1: "hours_of command = phrase_number (first_phrase CHR ''h'' command)"
    by (rule hours_scan)
  have a2: "minutes_of command = phrase_number (first_phrase CHR ''m'' command)"
    by (rule minutes_scan)
  have a3: "seconds_of command = phrase_number (first_phrase CHR ''s'' command)"
    by (rule seconds_scan)
  have a4: "totalSeconds command =
     num_add (num_add (num_mul (hours_of command) (Fin 3600))
                      (num_mul (minutes_of command) (Fin 60)))
             (seconds_of command)"
    by (simp only: totalSeconds_def)
  have a5: "not_negative (totalSeconds command)"
    by (rule totalSeconds_not_negative)
  have a6: "phrase_value (first_phrase CHR ''h'' command) * 3600 +
    phrase_value (first_phrase CHR ''m'' command) * 60 +
    phrase_value (first_phrase CHR ''s'' command) \<le> 2 ^ 53 \<longrightarrow>
      totalSeconds command =
        Fin (phrase_value (first_phrase CHR ''h'' command) * 3600 +
             phrase_value (first_phrase CHR ''m'' command) * 60 +
             phrase_value (first_phrase CHR ''s'' command))"
    by (rule impI) (rule totalSeconds_exact)
  have b: "totalSeconds ''remind in 1 hour 30 minutes'' = Fin 5400"
    by code_simp
  have c: "totalSeconds ''remind in 45s'' = Fin 45"
    by code_simp
  have d: "first_phrase CHR ''h'' command = None \<and> first_phrase CHR ''m'' command = None \<and>
    first_phrase CHR ''s'' command = None \<longrightarrow>
      totalSeconds command = Fin 0 \<and> num_le (totalSeconds command) (Fin 0)"
    by (simp add: totalSeconds_no_phrase)
  have e': "\<exists>res new. handleRemind E msg tr = (res, tr @ new) \<and>
         filter is_timer new = [] \<and> filter is_send new = [] \<and>
         filter (\<lambda>t. t = remind_format) (reply_texts new) = [remind_format] \<and>
         take 1 (reply_texts new) = [remind_format] \<and>
         (reply_outcome E (tr @ [Log (CmdRemind (pushname c))]) remind_format = None \<longrightarrow>
            res = Inr () \<and> reply_texts new = [remind_format])"
    if hyp: "getContact E = Inr c \<and> getChat E = Inr ch \<and>
        num_le (totalSeconds (toLowerCase (body msg))) (Fin 0)"
  proof -
    from hyp have p: "getContact E = Inr c" "getChat E = Inr ch"
      "num_le (totalSeconds (toLowerCase (body msg))) (Fin 0)" by simp_all
    note run = handleRemind_bad_format [OF p, where tr = tr]
    show ?thesis
    proof (cases "reply_outcome E (tr @ [Log (CmdRemind (pushname c))]) remind_format")
      case None
      have "handleRemind E msg tr =
              (Inr (), tr @ [Log (CmdRemind (pushname c)), Reply remind_format None])"
        using run by (simp add: None)
      then show ?thesis using None by simp
    next
      case (Some err)
      let ?r2 = "reply_outcome E (tr @ [Log (CmdRemind (pushname c)), Reply remind_format (Some err),
                   LogError (ErrorRemind err)]) remind_failed"
      have "handleRemind E msg tr =
              (case ?r2 of None \<Rightarrow> Inr () | Some e' \<Rightarrow> Inl e',
               tr @ [Log (CmdRemind (pushname c)), Reply remind_format (Some err),
                     LogError (ErrorRemind err), Reply remind_failed ?r2])"
        using run by (simp add: Some reply_def Let_def)
      then show ?thesis using Some remind_texts_differ by simp
    qed
  qed
  then have e: "getContact E = Inr c \<and> getChat E = Inr ch \<and>
      num_le (totalSeconds (toLowerCase (body msg))) (Fin 0) \<longrightarrow>
      (\<exists>res new. handleRemind E msg tr = (res, tr @ new) \<and>
         filter is_timer new = [] \<and> filter is_send new = [] \<and>
         filter (\<lambda>t. t = remind_format) (reply_texts new) = [remind_format] \<and>
         take 1 (reply_texts new) = [remind_format] \<and>
         (reply_outcome E (tr @ [Log (CmdRemind (pushname c))]) remind_format = None \<longrightarrow>
            res = Inr () \<and> reply_texts new = [remind_format]))"
    by (rule impI)
  show ?thesis
    by (intro conjI a1 a2 a3 a4 a5 a6 b c d e)
qed

text \<open>
  A text without a number: no unit has a phrase, the total is the exact zero, and the
  handler replies with the format text and stops.
\<close>

theorem remind_time_span_witness:
  "first_phrase CHR ''h'' ''$remind me soon'' = None \<and>
   first_phrase CHR ''m'' ''$remind me soon'' = None \<and>
   first_phrase CHR ''s'' ''$remind me soon'' = None \<and>
   totalSeconds ''$remind me soon'' = Fin 0 \<and>
   num_le (totalSeconds (toLowerCase (body (message_of 1 ''$Remind me soon'')))) (Fin 0) \<and>
   handleRemind (quiet_env private_chat [] []) (message_of 1 ''$Remind me soon'') [] =
     (Inr (), [Log (CmdRemind ''Alice''), Reply remind_format None])"
proof -
  have h1: "getContact (quiet_env private_chat [] []) = Inr alice"
    by (simp add: quiet_env_def)
  have h2: "getChat (quiet_env private_chat [] []) = Inr private_chat"
    by (simp add: quiet_env_def)
  have h3: "num_le (totalSeconds (toLowerCase (body (message_of 1 ''$Remind me soon'')))) (Fin 0)"
    by code_simp
  have n: "first_phrase CHR ''h'' ''$remind me soon'' = None \<and>
      first_phrase CHR ''m'' ''$remind me soon'' = None \<and>
      first_phrase CHR ''s'' ''$remind me soon'' = None"
    by code_simp
  have v: "phrase_value (first_phrase CHR ''h'' ''$remind me soon'') * 3600 +
      phrase_value (first_phrase CHR ''m'' ''$remind me soon'') * 60 +
      phrase_value (first_phrase CHR ''s'' ''$remind me soon'') \<le> 2 ^ 53"
    using n by (simp add: phrase_value_def)
  have run: "handleRemind (quiet_env private_chat [] []) (message_of 1 ''$Remind me soon'') [] =
     (Inr (), [Log (CmdRemind ''Alice''), Reply remind_format None])"
    by code_simp
  note t = remind_time_span [where E = "quiet_env private_chat [] []" and c = alice
      and ch = private_chat and msg = "message_of 1 ''$Remind me soon''" and tr = "[]"
      and command = "''$remind me soon''"]
  note t6 = t [THEN conjunct2, THEN conjunct2, THEN conjunct2, THEN conjunct2, THEN conjunct2]
  note exact = t6 [THEN conjunct1, THEN mp, OF v]
  note zero = t6 [THEN conjunct2, THEN conjunct2, THEN conjunct2, THEN conjunct1, THEN mp, OF n]
  note stop = t6 [THEN conjunct2, THEN conjunct2, THEN conjunct2, THEN conjunct2,
      rule_format, OF conjI [OF h1 conjI [OF h2 h3]]]
  from exact zero stop n h3 run show ?thesis by simp
qed

text \<open>
  Claim C5 as stated fails: \<open>match\<close> without the \<open>g\<close> flag returns the first match
  only, so the second hour phrase adds nothing and the total is 3600 seconds.
\<close>

theorem remind_repeated_unit_counterexample:
  "totalSeconds ''remind in 1 hour 1 hour'' = Fin 3600 \<and>
   totalSeconds ''remind in 1 hour 1 hour'' \<noteq> Fin 7200"
  by code_simp

text \<open>
  Claim C5, as amended. Repeated occurrences of a unit are not counted twice. For every
  text, whatever stands before the phrase, each unit takes the number of the leftmost
  place of the text where digits, optional white space and the unit letter follow one
  another, as the nearest double, and nothing appended to a text that has such a phrase
  changes the part. For \<open>remind in 1 hour 1 hour\<close> the total is 3600 seconds, and in
  \<open>in 5 minutes 1 hour 2 hours\<close> the hours are 1.
\<close>

theorem remind_first_match_wins:
  "totalSeconds ''remind in 1 hour 1 hour'' = Fin 3600 \<and>
   hours_of ''in 5 minutes 1 hour 2 hours'' = Fin 1 \<and>
   hours_of command = phrase_number (first_phrase CHR ''h'' command) \<and>
   minutes_of command = phrase_number (first_phrase CHR ''m'' command) \<and>
   seconds_of command = phrase_number (first_phrase CHR ''s'' command) \<and>
   (first_phrase CHR ''h'' command \<noteq> None \<longrightarrow> hours_of (command @ later) = hours_of command) \<and>
   (first_phrase CHR ''m'' command \<noteq> None \<longrightarrow> minutes_of (command @ later) = minutes_of command) \<and>
   (first_phrase CHR ''s'' command \<noteq> None \<longrightarrow> seconds_of (command @ later) = seconds_of command)"
proof -
  have t: "totalSeconds ''remind in 1 hour 1 hour'' = Fin 3600"
    by code_simp
  have u: "hours_of ''in 5 minutes 1 hour 2 hours'' = Fin 1"
    by code_simp
  have h: "first_phrase CHR ''h'' command \<noteq> None \<longrightarrow> hours_of (command @ later) = hours_of command"
    by (simp only: hours_scan) (rule impI, rule scan_append [OF unit_letters(1,2)])
  have m: "first_phrase CHR ''m'' command \<noteq> None \<longrightarrow> minutes_of (command @ later) = minutes_of command"
    by (simp only: minutes_scan) (rule impI, rule scan_append [OF unit_letters(3,4)])
  have s: "first_phrase CHR ''s'' command \<noteq> None \<longrightarrow> seconds_of (command @ later) = seconds_of command"
    by (simp only: seconds_scan) (rule impI, rule scan_append [OF unit_letters(5,6)])
  show ?thesis
    by (intro conjI t u hours_scan minutes_scan seconds_scan h m s)
qed

text \<open>
  A text with one phrase of each unit, and the same text with three more phrases behind
  it: the parts are those of the first phrases.
\<close>

theorem remind_first_match_wins_witness:
  "first_phrase CHR ''h'' ''remind in 1 hour 2 min 3 s'' \<noteq> None \<and>
   first_phrase CHR ''m'' ''remind in 1 hour 2 min 3 s'' \<noteq> None \<and>
   first_phrase CHR ''s'' ''remind in 1 hour 2 min 3 s'' \<noteq> None \<and>
   hours_of (''remind in 1 hour 2 min 3 s'' @ '' 4 hours 5 min 6 s'') = Fin 1 \<and>
   minutes_of (''remind in 1 hour 2 min 3 s'' @ '' 4 hours 5 min 6 s'') = Fin 2 \<and>
   seconds_of (''remind in 1 hour 2 min 3 s'' @ '' 4 hours 5 min 6 s'') = Fin 3"
proof -
  have ph: "first_phrase CHR ''h'' ''remind in 1 hour 2 min 3 s'' \<noteq> None"
    by code_simp
  have pm: "first_phrase CHR ''m'' ''remind in 1 hour 2 min 3 s'' \<noteq> None"
    by code_simp
  have ps: "first_phrase CHR ''s'' ''remind in 1 hour 2 min 3 s'' \<noteq> None"
    by code_simp
  have v: "hours_of ''remind in 1 hour 2 min 3 s'' = Fin 1 \<and>
      minutes_of ''remind in 1 hour 2 min 3 s'' = Fin 2 \<and>
      seconds_of ''remind in 1 hour 2 min 3 s'' = Fin 3"
    by code_simp
  note t = remind_first_match_wins [where command = "''remind in 1 hour 2 min 3 s''"
      and later = "'' 4 hours 5 min 6 s''", THEN conjunct2, THEN conjunct2, THEN conjunct2,
      THEN conjunct2, THEN conjunct2]
  note a = t [THEN conjunct1, THEN mp, OF ph]
  note b = t [THEN conjunct2, THEN conjunct1, THEN mp, OF pm]
  note c = t [THEN conjunct2, THEN conjunct2, THEN mp, OF ps]
  from a b c v ph pm ps show ?thesis by (simp only: simp_thms)
qed

section \<open>Properties of the roast selector and of \<open>$roast\<close>\<close>


lemma random_index:
  assumes "0 \<le> r" "r < 1" "0 < n"
  shows "0 \<le> \<lfloor>r * real n\<rfloor> \<and> \<lfloor>r * real n\<rfloor> < int n"
proof -
  have "0 \<le> r * real n"
    using assms(1) by simp
  then have lo: "0 \<le> \<lfloor>r * real n\<rfloor>"
    by simp
  have "r * real n < real n"
    using assms(2,3) by simp
  then have "\<lfloor>r * real n\<rfloor> < int n"
    by (simp add: floor_less_iff)
  with lo show ?thesis by simp
qed

lemma getRandomRoast_unreadable:
  "readFileSync E = Inl e \<Longrightarrow>
   getRandomRoast E tr = (Inr (Some roast_file_unreadable), tr @ [LogError (ErrorRoastFile e)])"
  by (simp add: getRandomRoast_def getRandomRoast_try_def)

lemma getRandomRoast_empty:
  "readFileSync E = Inr content \<Longrightarrow>
   filter (\<lambda>line. trim line \<noteq> []) (split CHR 0x0A content) = [] \<Longrightarrow>
   getRandomRoast E tr = (Inr (Some roast_file_empty), tr)"
  by (simp add: getRandomRoast_def getRandomRoast_try_def)

lemma getRandomRoast_line:
  assumes "readFileSync E = Inr content"
    and "filter (\<lambda>line. trim line \<noteq> []) (split CHR 0x0A content) \<noteq> []"
    and "0 \<le> random E" "random E < 1"
  shows "\<exists>line \<in> set (split CHR 0x0A content). trim line \<noteq> [] \<and>
           getRandomRoast E tr = (Inr (Some line), tr)"
proof -
  let ?roasts = "filter (\<lambda>line. trim line \<noteq> []) (split CHR 0x0A content)"
  let ?index = "\<lfloor>random E * real (length ?roasts)\<rfloor>"
  from assms(2) have n: "0 < length ?roasts" by simp
  from random_index [OF assms(3,4) n] have i: "0 \<le> ?index" "?index < int (length ?roasts)"
    by simp_all
  then have "nat ?index < length ?roasts" by (simp only: nat_less_iff)
  then have "?roasts ! nat ?index \<in> set ?roasts" by (rule nth_mem)
  then have mem: "?roasts ! nat ?index \<in> set (split CHR 0x0A content)"
    "trim (?roasts ! nat ?index) \<noteq> []"
    by simp_all
  have "getRandomRoast_try E = Inr (Some (?roasts ! nat ?index))"
    unfolding getRandomRoast_try_def Let_def using assms(1,2) i by simp
  then have "getRandomRoast E tr = (Inr (Some (?roasts ! nat ?index)), tr)"
    by (simp add: getRandomRoast_def)
  with mem show ?thesis by blast
qed


text \<open>
  Claim C8. The roast selector never throws, and for a value of \<open>Math.random()\<close> in
  its range, from 0 up to but not including 1, it returns a string. When reading the
  file throws it logs the error and returns the unreadable-resource text; when the file
  has no line that is not blank it returns the corpus-empty text; otherwise it returns
  one of the lines of the file that are not blank.
\<close>

theorem getRandomRoast_total:
  "(\<exists>roast tr'. getRandomRoast E tr = (Inr roast, tr')) \<and>
   (0 \<le> random E \<and> random E < 1 \<longrightarrow>
      (\<exists>line tr'. getRandomRoast E tr = (Inr (Some line), tr'))) \<and>
   (\<forall>e. readFileSync E = Inl e \<longrightarrow>
      getRandomRoast E tr =
        (Inr (Some roast_file_unreadable), tr @ [LogError (ErrorRoastFile e)])) \<and>
   (\<forall>content. readFileSync E = Inr content \<and>
      filter (\<lambda>line. trim line \<noteq> []) (split CHR 0x0A content) = [] \<longrightarrow>
      getRandomRoast E tr = (Inr (Some roast_file_empty), tr)) \<and>
   (\<forall>content. readFileSync E = Inr content \<and>
      filter (\<lambda>line. trim line \<noteq> []) (split CHR 0x0A content) \<noteq> [] \<and>
      0 \<le> random E \<and> random E < 1 \<longrightarrow>
      (\<exists>line \<in> set (split CHR 0x0A content). trim line \<noteq> [] \<and>
         getRandomRoast E tr = (Inr (Some line), tr)))"
proof -
  have a: "\<exists>roast tr'. getRandomRoast E tr = (Inr roast, tr')"
    by (cases "getRandomRoast_try E") (simp_all add: getRandomRoast_def)
  have b: "\<forall>e. readFileSync E = Inl e \<longrightarrow>
      getRandomRoast E tr =
        (Inr (Some roast_file_unreadable), tr @ [LogError (ErrorRoastFile e)])"
    using getRandomRoast_unreadable by blast
  have c: "\<forall>content. readFileSync E = Inr content \<and>
      filter (\<lambda>line. trim line \<noteq> []) (split CHR 0x0A content) = [] \<longrightarrow>
      getRandomRoast E tr = (Inr (Some roast_file_empty), tr)"
    using getRandomRoast_empty by blast
  have d: "\<forall>content. readFileSync E = Inr content \<and>
      filter (\<lambda>line. trim line \<noteq> []) (split CHR 0x0A content) \<noteq> [] \<and>
      0 \<le> random E \<and> random E < 1 \<longrightarrow>
      (\<exists>line \<in> set (split CHR 0x0A content). trim line \<noteq> [] \<and>
         getRandomRoast E tr = (Inr (Some line), tr))"
    using getRandomRoast_line by blast
  have s: "0 \<le> random E \<and> random E < 1 \<longrightarrow>
      (\<exists>line tr'. getRandomRoast E tr = (Inr (Some line), tr'))"
  proof (rule impI)
    assume r: "0 \<le> random E \<and> random E < 1"
    show "\<exists>line tr'. getRandomRoast E tr = (Inr (Some line), tr')"
    proof (cases "readFileSync E")
      case (Inl e)
      with b show ?thesis by blast
    next
      case (Inr content)
      show ?thesis
      proof (cases "filter (\<lambda>line. trim line \<noteq> []) (split CHR 0x0A content) = []")
        case True
        with Inr c show ?thesis by blast
      next
        case False
        with Inr r d show ?thesis by blast
      qed
    qed
  qed
  show ?thesis by (intro conjI a s b c d)
qed

text \<open>
  A file of two roasts and the random value one half: the second roast.
\<close>

theorem getRandomRoast_total_witness:
  "readFileSync (quiet_env private_chat [] two_roasts) = Inr two_roasts \<and>
   random (quiet_env private_chat [] two_roasts) < 1 \<and>
   getRandomRoast (quiet_env private_chat [] two_roasts) [] = (Inr (Some ''You are late.''), [])"
proof -
  have h: "readFileSync (quiet_env private_chat [] two_roasts) = Inr two_roasts"
    "0 \<le> random (quiet_env private_chat [] two_roasts)"
    "random (quiet_env private_chat [] two_roasts) < 1"
    by (simp_all add: quiet_env_def)
  have ne: "filter (\<lambda>line. trim line \<noteq> []) (split CHR 0x0A two_roasts) \<noteq> []"
    by code_simp
  have run: "getRandomRoast (quiet_env private_chat [] two_roasts) [] =
      (Inr (Some ''You are late.''), [])"
    by code_simp
  from getRandomRoast_total [where E = "quiet_env private_chat [] two_roasts" and tr = "[]",
      THEN conjunct2, THEN conjunct2, THEN conjunct2, THEN conjunct2, rule_format,
      OF conjI [OF h(1) conjI [OF ne conjI [OF h(2) h(3)]]]]
    h run
  show ?thesis by simp
qed

lemma roast_texts_differ: "roast_failed \<noteq> roast_usage"
  by (simp add: roast_failed_def roast_usage_def)

lemma handleRoast_no_mention:
  assumes "getContact E = Inr c" and "getChat E = Inr ch"
    and "getMentions E = Inr ms" and "ms = None \<or> ms = Some []"
    and "cmd = Log (CmdRoast (pushname c) (if name ch = [] then ''private chat'' else name ch))"
  shows "handleRoast E m tr =
     (case reply_outcome E (tr @ [cmd]) roast_usage of
        None \<Rightarrow> (Inr (), tr @ [cmd, Reply roast_usage None])
      | Some e \<Rightarrow>
          reply E roast_failed (tr @ [cmd, Reply roast_usage (Some e), LogError (ErrorRoast e)]))"
proof -
  have "roast_try E m tr = reply E roast_usage (tr @ [cmd])"
    using assms by (auto simp add: roast_try_def Let_def)
  then show ?thesis
    by (cases "reply_outcome E (tr @ [cmd]) roast_usage")
       (simp_all add: handleRoast_def reply_def Let_def)
qed

text \<open>
  Claim C9. When contact and chat resolve and the message mentions nobody, the handler
  sends nothing to the chat, and exactly one of its replies, the first, carries the
  usage text; when that reply resolves it is the only reply and the handler returns
  normally.
\<close>

theorem handleRoast_usage:
  assumes "getContact E = Inr c" and "getChat E = Inr ch"
    and "getMentions E = Inr ms" and "ms = None \<or> ms = Some []"
    and "cmd = Log (CmdRoast (pushname c) (if name ch = [] then ''private chat'' else name ch))"
  shows "\<exists>res new. handleRoast E m tr = (res, tr @ new) \<and>
           filter is_send new = [] \<and>
           filter (\<lambda>t. t = roast_usage) (reply_texts new) = [roast_usage] \<and>
           take 1 (reply_texts new) = [roast_usage] \<and>
           (reply_outcome E (tr @ [cmd]) roast_usage = None \<longrightarrow>
              res = Inr () \<and> reply_texts new = [roast_usage])"
proof -
  note run = handleRoast_no_mention [OF assms, where tr = tr and m = m]
  show ?thesis
  proof (cases "reply_outcome E (tr @ [cmd]) roast_usage")
    case None
    have "handleRoast E m tr = (Inr (), tr @ [cmd, Reply roast_usage None])"
      using run by (simp add: None)
    then show ?thesis using None assms(5) by simp
  next
    case (Some e)
    let ?r2 = "reply_outcome E (tr @ [cmd, Reply roast_usage (Some e), LogError (ErrorRoast e)])
                 roast_failed"
    have "handleRoast E m tr =
            (case ?r2 of None \<Rightarrow> Inr () | Some e' \<Rightarrow> Inl e',
             tr @ [cmd, Reply roast_usage (Some e), LogError (ErrorRoast e),
                   Reply roast_failed ?r2])"
      using run by (simp add: Some reply_def Let_def)
    then show ?thesis using Some assms(5) roast_texts_differ by simp
  qed
qed

text \<open>
  A message that mentions nobody: the handler replies with the usage text and stops.
\<close>

theorem handleRoast_usage_witness:
  "getMentions (quiet_env private_chat [] two_roasts) = Inr (Some []) \<and>
   handleRoast (quiet_env private_chat [] two_roasts) (message_of 1 ''$roast'') [] =
     (Inr (), [Log (CmdRoast ''Alice'' ''private chat''), Reply roast_usage None])"
proof -
  have h: "getContact (quiet_env private_chat [] two_roasts) = Inr alice"
    "getChat (quiet_env private_chat [] two_roasts) = Inr private_chat"
    "getMentions (quiet_env private_chat [] two_roasts) = Inr (Some [])"
    by (simp_all add: quiet_env_def)
  have e: "Some [] = None \<or> Some [] = Some ([] :: contact list)"
    by simp
  have run: "handleRoast (quiet_env private_chat [] two_roasts) (message_of 1 ''$roast'') [] =
     (Inr (), [Log (CmdRoast ''Alice'' ''private chat''), Reply roast_usage None])"
    by code_simp
  from handleRoast_usage [OF h e refl, where tr = "[]" and m = "message_of 1 ''$roast''"] h(3) run
  show ?thesis by simp
qed

end
